theory Spec2Isabelle
  imports Complex_Main "HOL-Library.AList"
begin

section \<open>The referral graph store (referral\_network.py)\<close>

text \<open>
  A user identifier is a Python \<open>str\<close>.  A Python \<open>set\<close> is modelled as a list without
  repetition: membership is \<open>\<in> set\<close>, \<open>add\<close> is \<open>pyset_add\<close>, and iterating the set walks
  the list.  The order in which Python iterates a set is not specified; the results below
  that talk about arbitrary stores hold for every order.
\<close>

type_synonym user = string

definition pyset_add :: "'a list \<Rightarrow> 'a \<Rightarrow> 'a list" where
  "pyset_add xs x = (if x \<in> set xs then xs else xs @ [x])"

text \<open>
  \<open>reverse_referrals\<close> is a \<open>defaultdict(set)\<close>: a dictionary (association list in
  insertion order) whose subscript \<open>d[k]\<close> on a missing key stores the empty set under
  \<open>k\<close> and returns it.  \<open>dd_lookup\<close> is the value \<open>d[k]\<close> returns, \<open>dd_touch\<close> the
  dictionary that the subscript leaves behind.
\<close>

type_synonym revidx = "(user \<times> user list) list"

definition dd_lookup :: "revidx \<Rightarrow> user \<Rightarrow> user list" where
  "dd_lookup d k = (case map_of d k of None \<Rightarrow> [] | Some v \<Rightarrow> v)"

definition dd_touch :: "revidx \<Rightarrow> user \<Rightarrow> revidx" where
  "dd_touch d k = (case map_of d k of None \<Rightarrow> d @ [(k, [])] | Some v \<Rightarrow> d)"

text \<open>\<open>d[r].add(c)\<close> on the defaultdict.\<close>

definition dd_add :: "revidx \<Rightarrow> user \<Rightarrow> user \<Rightarrow> revidx" where
  "dd_add d r c = AList.update r (pyset_add (dd_lookup d r) c) (dd_touch d r)"

text \<open>All identifiers that occur in some value set of the dictionary.\<close>

definition dd_nodes :: "revidx \<Rightarrow> user set" where
  "dd_nodes d = (\<Union>kv \<in> set d. set (snd kv))"

record network =
  referrals :: "user \<rightharpoonup> user"
  reverse_referrals :: revidx
  users :: "user list"

definition empty_network :: network where
  "empty_network = \<lparr>referrals = Map.empty, reverse_referrals = [], users = []\<rparr>"

text \<open>The four \<open>ValueError\<close>s that \<open>add_referral\<close> raises, told apart by their message.\<close>

datatype error = EmptyIdentifier | SelfReferral | DuplicateReferrer | CycleDetected

lemma dd_lookup_touch [simp]: "dd_lookup (dd_touch d k) k' = dd_lookup d k'"
  by (auto simp: dd_lookup_def dd_touch_def split: option.splits if_splits)

lemma dd_nodes_touch [simp]: "dd_nodes (dd_touch d k) = dd_nodes d"
  by (auto simp: dd_nodes_def dd_touch_def split: option.splits)

lemma dd_lookup_nodes: "set (dd_lookup d k) \<subseteq> dd_nodes d"
proof (cases "map_of d k")
  case None
  then show ?thesis by (simp add: dd_lookup_def)
next
  case (Some v)
  then have "(k, v) \<in> set d" by (rule map_of_SomeD)
  then show ?thesis using Some by (force simp: dd_lookup_def dd_nodes_def)
qed

lemma finite_dd_nodes [simp]: "finite (dd_nodes d)"
  by (simp add: dd_nodes_def)

text \<open>
  \<open>_would_create_cycle\<close>: the \<open>while stack\<close> loop.  The head of the list is the top of the
  stack (\<open>stack.pop()\<close> takes the element appended last), so the children pushed by the
  \<open>for\<close> loop end up reversed in front of the rest.  \<open>visited\<close> is a set that only ever
  receives an element known to be absent, so \<open>add\<close> is a cons.
\<close>

function wcc_loop :: "user \<Rightarrow> revidx \<Rightarrow> user list \<Rightarrow> user list \<Rightarrow> bool \<times> revidx" where
  "wcc_loop referrer rr visited [] = (False, rr)"
| "wcc_loop referrer rr visited (current # stack) =
     (if current = referrer then (True, rr)
      else if current \<in> set visited then wcc_loop referrer rr visited stack
      else wcc_loop referrer (dd_touch rr current) (current # visited)
             (rev (filter (\<lambda>n. n \<notin> set (current # visited)) (dd_lookup rr current)) @ stack))"
  by pat_completeness auto
termination
proof (relation "measures [\<lambda>(referrer, rr, visited, stack). card ((dd_nodes rr \<union> set stack) - set visited),
                           \<lambda>(referrer, rr, visited, stack). length stack]", goal_cases)
  case 1
  show ?case by simp
next
  case (2 referrer rr visited current stack)
  then have "(dd_nodes rr \<union> set stack) - set visited = (dd_nodes rr \<union> set (current # stack)) - set visited"
    by auto
  then show ?case by simp
next
  case (3 referrer rr visited current stack)
  let ?new = "rev (filter (\<lambda>n. n \<notin> set (current # visited)) (dd_lookup rr current))"
  have "set ?new \<subseteq> dd_nodes rr" using dd_lookup_nodes [of rr current] by auto
  then have "(dd_nodes (dd_touch rr current) \<union> set (?new @ stack)) - set (current # visited)
        \<subset> (dd_nodes rr \<union> set (current # stack)) - set visited"
    using 3 by auto
  then have "card ((dd_nodes (dd_touch rr current) \<union> set (?new @ stack)) - set (current # visited))
        < card ((dd_nodes rr \<union> set (current # stack)) - set visited)"
    by (intro psubset_card_mono) auto
  then show ?case by simp
qed

definition would_create_cycle :: "revidx \<Rightarrow> user \<Rightarrow> user \<Rightarrow> bool \<times> revidx" where
  "would_create_cycle rr referrer candidate = wcc_loop referrer rr [] [candidate]"

text \<open>
  \<open>add_referral\<close> returns the raised error or \<open>True\<close>, together with the store it leaves.
\<close>

definition add_referral :: "network \<Rightarrow> user \<Rightarrow> user \<Rightarrow> (error + bool) \<times> network" where
  "add_referral s referrer candidate =
     (if referrer = [] \<or> candidate = [] then (Inl EmptyIdentifier, s)
      else if referrer = candidate then (Inl SelfReferral, s)
      else if referrals s candidate \<noteq> None then (Inl DuplicateReferrer, s)
      else
        let (cyc, rr1) = would_create_cycle (reverse_referrals s) referrer candidate
        in if cyc then (Inl CycleDetected, s\<lparr>reverse_referrals := rr1\<rparr>)
           else (Inr True,
                 \<lparr>referrals = (referrals s)(candidate \<mapsto> referrer),
                  reverse_referrals = dd_add rr1 referrer candidate,
                  users = pyset_add (pyset_add (users s) referrer) candidate\<rparr>))"

subsection \<open>What the cycle check computes and what it leaves behind\<close>

text \<open>
  \<open>succ_rel\<close> is the fan-out relation the traversals follow (referrer to candidate),
  \<open>dd_keys\<close> the keys present in the defaultdict, and a dictionary is \<open>rr_closed\<close> when
  every identifier stored in a value set is itself a key.
\<close>

definition succ_rel :: "revidx \<Rightarrow> (user \<times> user) set" where
  "succ_rel rr = {(a, b). b \<in> set (dd_lookup rr a)}"

definition dd_keys :: "revidx \<Rightarrow> user set" where
  "dd_keys d = fst ` set d"

definition rr_closed :: "revidx \<Rightarrow> bool" where
  "rr_closed d = (\<forall>k. set (dd_lookup d k) \<subseteq> dd_keys d)"

lemma succ_rel_touch [simp]: "succ_rel (dd_touch rr k) = succ_rel rr"
  by (simp add: succ_rel_def)

lemma dd_touch_key: "k \<in> dd_keys d \<Longrightarrow> dd_touch d k = d"
  by (auto simp: dd_touch_def dd_keys_def map_of_eq_None_iff split: option.splits)

lemma dd_keys_touch: "dd_keys (dd_touch d k) = insert k (dd_keys d)"
proof (cases "map_of d k")
  case None
  then show ?thesis by (auto simp: dd_touch_def dd_keys_def)
next
  case (Some v)
  then have "(k, v) \<in> set d" by (rule map_of_SomeD)
  then have "k \<in> dd_keys d" by (force simp: dd_keys_def)
  then show ?thesis using Some by (auto simp: dd_touch_def)
qed

lemma wcc_loop_lookup: "dd_lookup (snd (wcc_loop ref rr V S)) k = dd_lookup rr k"
  by (induction ref rr V S rule: wcc_loop.induct) auto

lemma wcc_loop_complete:
  assumes "\<not> fst (wcc_loop ref rr V S)" "ref \<notin> set V"
    "\<forall>v\<in>set V. \<forall>w. (v, w) \<in> succ_rel rr \<longrightarrow> w \<in> set V \<union> set S"
  shows "\<exists>W. set V \<union> set S \<subseteq> W \<and> ref \<notin> W \<and> (\<forall>v\<in>W. \<forall>w. (v, w) \<in> succ_rel rr \<longrightarrow> w \<in> W)"
  using assms
proof (induction ref rr V S rule: wcc_loop.induct)
  case (1 referrer rr visited)
  then show ?case by (intro exI [of _ "set visited"]) auto
next
  case (2 referrer rr visited current stack)
  show ?case
  proof (cases "current = referrer")
    case True
    with 2 show ?thesis by simp
  next
    case ne: False
    show ?thesis
    proof (cases "current \<in> set visited")
      case True
      have a: "\<not> fst (wcc_loop referrer rr visited stack)" using 2(3) ne True by simp
      have c: "\<forall>v\<in>set visited. \<forall>w. (v, w) \<in> succ_rel rr \<longrightarrow> w \<in> set visited \<union> set stack"
        using 2(5) True by auto
      from 2(1) [OF ne True a 2(4) c] obtain W where
        "set visited \<union> set stack \<subseteq> W" "referrer \<notin> W" "\<forall>v\<in>W. \<forall>w. (v, w) \<in> succ_rel rr \<longrightarrow> w \<in> W"
        by blast
      with True show ?thesis by (intro exI [of _ W]) auto
    next
      case False
      let ?new = "rev (filter (\<lambda>n. n \<notin> set (current # visited)) (dd_lookup rr current))"
      have a: "\<not> fst (wcc_loop referrer (dd_touch rr current) (current # visited) (?new @ stack))"
        using 2(3) ne False by simp
      have b: "referrer \<notin> set (current # visited)" using ne 2(4) by auto
      have c: "\<forall>v\<in>set (current # visited). \<forall>w. (v, w) \<in> succ_rel (dd_touch rr current) \<longrightarrow> w \<in> set (current # visited) \<union> set (?new @ stack)"
        using 2(5) by (auto simp: succ_rel_def)
      from 2(2) [OF ne False a b c] obtain W where
        W: "set (current # visited) \<union> set (?new @ stack) \<subseteq> W" "referrer \<notin> W"
          "\<forall>v\<in>W. \<forall>w. (v, w) \<in> succ_rel (dd_touch rr current) \<longrightarrow> w \<in> W"
        by blast
      have "set visited \<union> set (current # stack) \<subseteq> W" using W(1) by auto
      with W(2,3) show ?thesis by (intro exI [of _ W]) simp
    qed
  qed
qed

lemma wcc_loop_sound:
  "fst (wcc_loop ref rr V S) \<Longrightarrow> \<exists>x\<in>set S. (x, ref) \<in> (succ_rel rr)\<^sup>*"
proof (induction ref rr V S rule: wcc_loop.induct)
  case (1 referrer rr visited)
  then show ?case by simp
next
  case (2 referrer rr visited current stack)
  show ?case
  proof (cases "current = referrer")
    case True
    then show ?thesis by auto
  next
    case ne: False
    show ?thesis
    proof (cases "current \<in> set visited")
      case True
      have "fst (wcc_loop referrer rr visited stack)" using 2(3) ne True by simp
      from 2(1) [OF ne True this] show ?thesis by auto
    next
      case False
      let ?new = "rev (filter (\<lambda>n. n \<notin> set (current # visited)) (dd_lookup rr current))"
      have "fst (wcc_loop referrer (dd_touch rr current) (current # visited) (?new @ stack))"
        using 2(3) ne False by simp
      from 2(2) [OF ne False this] obtain x where x: "x \<in> set (?new @ stack)" "(x, referrer) \<in> (succ_rel rr)\<^sup>*"
        by auto
      show ?thesis
      proof (cases "x \<in> set stack")
        case True
        with x show ?thesis by auto
      next
        case False
        with x have "(current, x) \<in> succ_rel rr" by (auto simp: succ_rel_def)
        with x have "(current, referrer) \<in> (succ_rel rr)\<^sup>*" by (meson converse_rtrancl_into_rtrancl)
        then show ?thesis by auto
      qed
    qed
  qed
qed

lemma closed_rtrancl:
  assumes "(a, b) \<in> R\<^sup>*" "a \<in> W" "\<forall>v\<in>W. \<forall>w. (v, w) \<in> R \<longrightarrow> w \<in> W"
  shows "b \<in> W"
  using assms by (induction rule: rtrancl_induct) auto

lemma would_create_cycle_iff:
  "fst (would_create_cycle rr r c) \<longleftrightarrow> (c, r) \<in> (succ_rel rr)\<^sup>*"
proof
  assume "fst (would_create_cycle rr r c)"
  from wcc_loop_sound [OF this [unfolded would_create_cycle_def]] show "(c, r) \<in> (succ_rel rr)\<^sup>*" by simp
next
  assume p: "(c, r) \<in> (succ_rel rr)\<^sup>*"
  show "fst (would_create_cycle rr r c)"
  proof (rule ccontr)
    assume "\<not> fst (would_create_cycle rr r c)"
    then have "\<not> fst (wcc_loop r rr [] [c])" by (simp add: would_create_cycle_def)
    from wcc_loop_complete [OF this] obtain W where
      W: "c \<in> W" "r \<notin> W" "\<forall>v\<in>W. \<forall>w. (v, w) \<in> succ_rel rr \<longrightarrow> w \<in> W" by auto
    from closed_rtrancl [OF p W(1) W(3)] W(2) show False by simp
  qed
qed

lemma wcc_loop_closed:
  "rr_closed rr \<Longrightarrow> set S \<subseteq> dd_keys rr \<Longrightarrow> snd (wcc_loop ref rr V S) = rr"
proof (induction ref rr V S rule: wcc_loop.induct)
  case (1 referrer rr visited)
  then show ?case by simp
next
  case (2 referrer rr visited current stack)
  have t: "dd_touch rr current = rr" using 2(4) by (simp add: dd_touch_key)
  have l: "set (dd_lookup rr current) \<subseteq> dd_keys rr"
    using 2(3) by (simp add: rr_closed_def)
  show ?case
  proof (cases "current = referrer")
    case True
    then show ?thesis by simp
  next
    case ne: False
    show ?thesis
    proof (cases "current \<in> set visited")
      case True
      have "snd (wcc_loop referrer rr visited stack) = rr"
        using 2(1) [OF ne True 2(3)] 2(4) by simp
      with ne True show ?thesis by simp
    next
      case False
      let ?new = "rev (filter (\<lambda>n. n \<notin> set (current # visited)) (dd_lookup rr current))"
      have "set (?new @ stack) \<subseteq> dd_keys (dd_touch rr current)"
        using l 2(4) t by auto
      from 2(2) [OF ne False _ this] 2(3) t
      have "snd (wcc_loop referrer rr (current # visited) (?new @ stack)) = rr" by simp
      with ne False t show ?thesis by simp
    qed
  qed
qed

lemma would_create_cycle_unknown:
  "c \<notin> dd_keys rr \<Longrightarrow> c \<noteq> r \<Longrightarrow> would_create_cycle rr r c = (False, dd_touch rr c)"
proof -
  assume a: "c \<notin> dd_keys rr" "c \<noteq> r"
  then have "map_of rr c = None" by (simp add: dd_keys_def map_of_eq_None_iff)
  then have "dd_lookup rr c = []" by (simp add: dd_lookup_def)
  with a show ?thesis by (simp add: would_create_cycle_def)
qed

lemma would_create_cycle_closed:
  assumes "rr_closed rr" "fst (would_create_cycle rr r c)" "c \<noteq> r"
  shows "snd (would_create_cycle rr r c) = rr"
proof (cases "c \<in> dd_keys rr")
  case True
  then have "snd (wcc_loop r rr [] [c]) = rr" using assms(1) by (intro wcc_loop_closed) auto
  then show ?thesis by (simp only: would_create_cycle_def)
next
  case False
  with assms show ?thesis by (simp add: would_create_cycle_unknown)
qed

subsection \<open>Stores built by the class and their invariant\<close>

text \<open>
  \<open>edges\<close> reads the primary index as a relation from referrer to candidate.
  \<open>forest_inv\<close> collects what holds of every store the class can build: the two indices
  describe the same edges, the edges have no cycle, every value set and the user set are
  sets, the user set holds exactly the identifiers of the accepted edges, and every
  identifier stored in the reverse index is one of its keys.

  \<open>reachable_store\<close> holds of the stores the class can be in: the empty one, the one any call of
  \<open>add_referral\<close> leaves (accepted or rejected), and the one a read-side traversal leaves
  when its subscript \<open>reverse_referrals[k]\<close> meets a missing key.  Python does not say in
  which order a set is iterated, so rule \<open>order\<close> adds every store that differs from one of
  these only in the order of the user set and of the candidate sets (the keys of the
  dictionary keep their insertion order).  \<open>run\<close> replays a list of \<open>add_referral\<close> calls
  on the empty store.
\<close>

definition edges :: "network \<Rightarrow> (user \<times> user) set" where
  "edges s = {(r, c). referrals s c = Some r}"

definition forest_inv :: "network \<Rightarrow> bool" where
  "forest_inv s \<longleftrightarrow>
     succ_rel (reverse_referrals s) = edges s \<and>
     acyclic (edges s) \<and>
     (\<forall>k. distinct (dd_lookup (reverse_referrals s) k)) \<and>
     distinct (users s) \<and>
     set (users s) = dom (referrals s) \<union> ran (referrals s) \<and>
     rr_closed (reverse_referrals s)"

inductive reachable_store :: "network \<Rightarrow> bool" where
  init: "reachable_store empty_network"
| add: "reachable_store s \<Longrightarrow> reachable_store (snd (add_referral s r c))"
| look: "reachable_store s \<Longrightarrow> reachable_store (s\<lparr>reverse_referrals := dd_touch (reverse_referrals s) k\<rparr>)"
| order: "reachable_store s \<Longrightarrow> referrals s' = referrals s \<Longrightarrow>
      set (users s') = set (users s) \<Longrightarrow> distinct (users s') \<Longrightarrow>
      map fst (reverse_referrals s') = map fst (reverse_referrals s) \<Longrightarrow>
      (\<And>k. set (dd_lookup (reverse_referrals s') k) = set (dd_lookup (reverse_referrals s) k)) \<Longrightarrow>
      (\<And>k. distinct (dd_lookup (reverse_referrals s') k)) \<Longrightarrow>
      reachable_store s'"

definition run :: "(user \<times> user) list \<Rightarrow> network" where
  "run calls = foldl (\<lambda>s (r, c). snd (add_referral s r c)) empty_network calls"

lemma wcc_loop_keys: "dd_keys rr \<subseteq> dd_keys (snd (wcc_loop ref rr V S))"
proof (induction ref rr V S rule: wcc_loop.induct)
  case (1 referrer rr visited)
  then show ?case by simp
next
  case (2 referrer rr visited current stack)
  show ?case
  proof (cases "current = referrer")
    case True
    then show ?thesis by simp
  next
    case ne: False
    show ?thesis
    proof (cases "current \<in> set visited")
      case True
      with ne 2(1) show ?thesis by simp
    next
      case False
      from 2(2) [OF ne False] ne False show ?thesis by (auto simp: dd_keys_touch)
    qed
  qed
qed

lemma would_create_cycle_keys:
  "dd_keys rr \<subseteq> dd_keys (snd (would_create_cycle rr r c))"
  unfolding would_create_cycle_def by (rule wcc_loop_keys)

lemma would_create_cycle_lookup [simp]:
  "dd_lookup (snd (would_create_cycle rr r c)) k = dd_lookup rr k"
  by (simp add: would_create_cycle_def wcc_loop_lookup)

lemma would_create_cycle_touched:
  assumes "c \<noteq> r" shows "c \<in> dd_keys (snd (would_create_cycle rr r c))"
proof -
  let ?new = "rev (filter (\<lambda>n. n \<notin> set [c]) (dd_lookup rr c))"
  have "would_create_cycle rr r c = wcc_loop r (dd_touch rr c) [c] (?new @ [])"
    using assms by (simp add: would_create_cycle_def)
  moreover have "c \<in> dd_keys (dd_touch rr c)" by (simp add: dd_keys_touch)
  ultimately show ?thesis using wcc_loop_keys [of "dd_touch rr c" r "[c]" "?new @ []"] by auto
qed

lemma rr_closed_mono:
  assumes "rr_closed d" "\<And>k. dd_lookup d' k = dd_lookup d k" "dd_keys d \<subseteq> dd_keys d'"
  shows "rr_closed d'"
  using assms unfolding rr_closed_def by fastforce

lemma succ_rel_cong: "(\<And>k. dd_lookup d' k = dd_lookup d k) \<Longrightarrow> succ_rel d' = succ_rel d"
  by (simp add: succ_rel_def)

lemma dd_lookup_update:
  "dd_lookup (AList.update k v al) k' = (if k' = k then v else dd_lookup al k')"
  by (simp add: dd_lookup_def update_conv')

lemma dd_lookup_add:
  "dd_lookup (dd_add d r c) k = (if k = r then pyset_add (dd_lookup d r) c else dd_lookup d k)"
  by (simp add: dd_add_def dd_lookup_update)

lemma dd_keys_add: "dd_keys (dd_add d r c) = insert r (dd_keys d)"
proof -
  have "dd_keys (dd_add d r c) = insert r (dd_keys (dd_touch d r))"
    by (simp add: dd_add_def dd_keys_def dom_update)
  then show ?thesis by (simp add: dd_keys_touch)
qed

lemma set_pyset_add [simp]: "set (pyset_add xs x) = insert x (set xs)"
  by (auto simp: pyset_add_def)

lemma distinct_pyset_add [simp]: "distinct (pyset_add xs x) = distinct xs"
  by (auto simp: pyset_add_def)

lemma edges_add:
  assumes "referrals s c = None"
  shows "edges (s\<lparr>referrals := (referrals s)(c \<mapsto> r)\<rparr>) = insert (r, c) (edges s)"
  using assms by (auto simp: edges_def)

lemma succ_rel_add: "succ_rel (dd_add d r c) = insert (r, c) (succ_rel d)"
  by (auto simp: succ_rel_def dd_lookup_add split: if_splits)

lemma add_referral_cases:
  obtains (empty) "r = [] \<or> c = []" "add_referral s r c = (Inl EmptyIdentifier, s)"
  | (self) "r \<noteq> []" "c \<noteq> []" "r = c" "add_referral s r c = (Inl SelfReferral, s)"
  | (dup) "r \<noteq> []" "c \<noteq> []" "r \<noteq> c" "referrals s c \<noteq> None" "add_referral s r c = (Inl DuplicateReferrer, s)"
  | (cycle) "r \<noteq> []" "c \<noteq> []" "r \<noteq> c" "referrals s c = None"
      "fst (would_create_cycle (reverse_referrals s) r c)"
      "add_referral s r c =
         (Inl CycleDetected, s\<lparr>reverse_referrals := snd (would_create_cycle (reverse_referrals s) r c)\<rparr>)"
  | (ok) "r \<noteq> []" "c \<noteq> []" "r \<noteq> c" "referrals s c = None"
      "\<not> fst (would_create_cycle (reverse_referrals s) r c)"
      "add_referral s r c =
         (Inr True, \<lparr>referrals = (referrals s)(c \<mapsto> r),
                     reverse_referrals = dd_add (snd (would_create_cycle (reverse_referrals s) r c)) r c,
                     users = pyset_add (pyset_add (users s) r) c\<rparr>)"
  by (cases "would_create_cycle (reverse_referrals s) r c") (auto simp: add_referral_def)

lemma forest_inv_empty: "forest_inv empty_network"
  by (simp add: forest_inv_def empty_network_def succ_rel_def edges_def dd_lookup_def rr_closed_def acyclic_def)

lemma forest_inv_touch:
  assumes "forest_inv s" "\<And>k. dd_lookup d' k = dd_lookup (reverse_referrals s) k"
    "dd_keys (reverse_referrals s) \<subseteq> dd_keys d'"
  shows "forest_inv (s\<lparr>reverse_referrals := d'\<rparr>)"
proof -
  have "succ_rel d' = succ_rel (reverse_referrals s)" using assms(2) by (rule succ_rel_cong)
  moreover have "rr_closed (reverse_referrals s)" using assms(1) by (simp add: forest_inv_def)
  then have "rr_closed d'" using assms(2,3) by (rule rr_closed_mono)
  moreover have "\<forall>k. distinct (dd_lookup d' k)" using assms(1) by (simp add: assms(2) forest_inv_def)
  ultimately show ?thesis using assms(1) by (simp add: forest_inv_def edges_def)
qed

lemma forest_inv_add:
  assumes inv: "forest_inv s" shows "forest_inv (snd (add_referral s r c))"
proof (cases rule: add_referral_cases [where s = s and r = r and c = c])
  case cycle
  let ?d = "snd (would_create_cycle (reverse_referrals s) r c)"
  have "forest_inv (s\<lparr>reverse_referrals := ?d\<rparr>)"
    using inv by (rule forest_inv_touch) (simp_all add: would_create_cycle_keys)
  with cycle show ?thesis by simp
next
  case ok
  let ?d = "snd (would_create_cycle (reverse_referrals s) r c)"
  let ?s' = "\<lparr>referrals = (referrals s)(c \<mapsto> r), reverse_referrals = dd_add ?d r c,
              users = pyset_add (pyset_add (users s) r) c\<rparr>"
  have sr: "succ_rel ?d = edges s"
    using inv succ_rel_cong [of ?d "reverse_referrals s"] by (simp add: forest_inv_def)
  have e: "edges ?s' = insert (r, c) (edges s)" using ok(4) by (auto simp: edges_def)
  have 1: "succ_rel (reverse_referrals ?s') = edges ?s'" using sr e by (simp add: succ_rel_add)
  have "(c, r) \<notin> (edges s)\<^sup>*"
    using ok(5) inv by (simp add: would_create_cycle_iff forest_inv_def)
  then have 2: "acyclic (edges ?s')" using inv e by (simp add: acyclic_insert forest_inv_def)
  have 3: "\<forall>k. distinct (dd_lookup (reverse_referrals ?s') k)"
    using inv by (simp add: dd_lookup_add forest_inv_def)
  have 4: "distinct (users ?s')" using inv by (simp add: forest_inv_def)
  have "ran ((referrals s)(c \<mapsto> r)) = insert r (ran (referrals s))" using ok(4) by simp
  then have 5: "set (users ?s') = dom (referrals ?s') \<union> ran (referrals ?s')"
    using inv by (auto simp: forest_inv_def)
  have ck: "c \<in> dd_keys ?d" using ok(3) by (intro would_create_cycle_touched) simp
  have "rr_closed (reverse_referrals s)" using inv by (simp add: forest_inv_def)
  then have cl: "rr_closed ?d"
    by (rule rr_closed_mono) (simp_all add: would_create_cycle_keys)
  have 6: "rr_closed (reverse_referrals ?s')"
    using cl ck unfolding rr_closed_def by (auto simp: dd_lookup_add dd_keys_add)
  show ?thesis using ok(6) 1 2 3 4 5 6 by (simp add: forest_inv_def)
qed (use inv in simp_all)

lemma reachable_forest_inv: "reachable_store s \<Longrightarrow> forest_inv s"
proof (induction rule: reachable_store.induct)
  case init
  show ?case by (rule forest_inv_empty)
next
  case (add s r c)
  then show ?case by (simp add: forest_inv_add)
next
  case (look s k)
  then show ?case by (intro forest_inv_touch) (auto simp: dd_keys_touch)
next
  case (order s s')
  have inv: "forest_inv s" by fact
  have r: "referrals s' = referrals s" by fact
  have u: "set (users s') = set (users s)" by fact
  have du: "distinct (users s')" by fact
  have mk: "map fst (reverse_referrals s') = map fst (reverse_referrals s)" by fact
  have lk: "set (dd_lookup (reverse_referrals s') k) = set (dd_lookup (reverse_referrals s) k)" for k
    by fact
  have dl: "distinct (dd_lookup (reverse_referrals s') k)" for k by fact
  have sr: "succ_rel (reverse_referrals s') = succ_rel (reverse_referrals s)"
    by (simp add: succ_rel_def lk)
  have ed: "edges s' = edges s" by (simp add: edges_def r)
  have "set (map fst (reverse_referrals s')) = set (map fst (reverse_referrals s))"
    by (simp only: mk)
  then have keys: "dd_keys (reverse_referrals s') = dd_keys (reverse_referrals s)"
    by (simp add: dd_keys_def)
  have "set (dd_lookup (reverse_referrals s) k) \<subseteq> dd_keys (reverse_referrals s)" for k
    using inv by (simp add: forest_inv_def rr_closed_def)
  then have cl: "rr_closed (reverse_referrals s')"
    unfolding rr_closed_def keys lk by blast
  have 1: "succ_rel (reverse_referrals s') = edges s'" using inv sr ed by (simp add: forest_inv_def)
  have 2: "acyclic (edges s')" using inv ed by (simp add: forest_inv_def)
  have 3: "set (users s') = dom (referrals s') \<union> ran (referrals s')"
    using inv r u by (simp add: forest_inv_def)
  show ?case unfolding forest_inv_def using 1 2 3 cl dl du by blast
qed

lemma reachable_run: "reachable_store (run calls)"
proof -
  have "reachable_store s \<Longrightarrow> reachable_store (foldl (\<lambda>s (r, c). snd (add_referral s r c)) s calls)" for s
    by (induction calls arbitrary: s) (auto intro: reachable_store.add)
  from this [OF reachable_store.init] show ?thesis unfolding run_def .
qed

subsection \<open>The forest invariant and atomic insertion\<close>

text \<open>
  Claim C1.  Every store the class can reach is a forest of in-trees: no candidate is its
  own referrer, no candidate sits in the candidate sets of two referrers, the reverse index
  and the primary index describe the same edges, the edges have no directed cycle, and
  \<open>add_referral\<close> rejects every call that is a self-referral, names a candidate that
  already has a referrer, or whose referrer can be reached from its candidate.
\<close>

theorem forest_of_in_trees:
  assumes "reachable_store s"
  shows "(\<forall>c. referrals s c \<noteq> Some c)
       \<and> (\<forall>c r1 r2. c \<in> set (dd_lookup (reverse_referrals s) r1) \<longrightarrow>
                    c \<in> set (dd_lookup (reverse_referrals s) r2) \<longrightarrow> r1 = r2)
       \<and> (\<forall>r c. c \<in> set (dd_lookup (reverse_referrals s) r) \<longleftrightarrow> referrals s c = Some r)
       \<and> acyclic (edges s)
       \<and> (\<forall>r c. r = c \<or> referrals s c \<noteq> None \<or> (c, r) \<in> (edges s)\<^sup>* \<longrightarrow>
                 isl (fst (add_referral s r c)))"
proof -
  have inv: "forest_inv s" using assms by (rule reachable_forest_inv)
  then have sr: "succ_rel (reverse_referrals s) = edges s" and ac: "acyclic (edges s)"
    by (simp_all add: forest_inv_def)
  have idx: "c \<in> set (dd_lookup (reverse_referrals s) r) \<longleftrightarrow> referrals s c = Some r" for r c
    using sr by (auto simp: succ_rel_def edges_def)
  have self: "referrals s c \<noteq> Some c" for c
  proof
    assume "referrals s c = Some c"
    then have "(c, c) \<in> (edges s)\<^sup>+" by (auto simp: edges_def)
    with ac show False by (simp add: acyclic_def)
  qed
  have rej: "isl (fst (add_referral s r c))"
    if "r = c \<or> referrals s c \<noteq> None \<or> (c, r) \<in> (edges s)\<^sup>*" for r c
  proof (cases rule: add_referral_cases [where s = s and r = r and c = c])
    case ok
    with that sr show ?thesis by (simp add: would_create_cycle_iff)
  qed simp_all
  show ?thesis using idx self rej ac by auto
qed

text \<open>The chain alice, bob, carol: the edge from carol back to alice is refused.\<close>

theorem forest_of_in_trees_witness:
  "reachable_store (run [(''alice'', ''bob''), (''bob'', ''carol'')])
   \<and> referrals (run [(''alice'', ''bob''), (''bob'', ''carol'')]) ''bob'' = Some ''alice''
   \<and> acyclic (edges (run [(''alice'', ''bob''), (''bob'', ''carol'')]))
   \<and> fst (add_referral (run [(''alice'', ''bob''), (''bob'', ''carol'')]) ''carol'' ''alice'')
       = Inl CycleDetected"
proof -
  let ?s = "run [(''alice'', ''bob''), (''bob'', ''carol'')]"
  have r: "reachable_store ?s" by (rule reachable_run)
  have "referrals ?s ''bob'' = Some ''alice''"
    by (simp add: run_def add_referral_def would_create_cycle_def empty_network_def dd_lookup_def
        dd_touch_def dd_add_def pyset_add_def)
  moreover have "fst (add_referral ?s ''carol'' ''alice'') = Inl CycleDetected"
    by (simp add: run_def add_referral_def would_create_cycle_def empty_network_def dd_lookup_def
        dd_touch_def dd_add_def pyset_add_def)
  ultimately show ?thesis using r forest_of_in_trees [OF r] by simp
qed

text \<open>
  Claim C2.  \<open>add_referral\<close> is atomic on every store the class can reach: a call that
  raises leaves the store (primary index, reverse index with its keys, user set) equal to the
  store before the call, and a call that succeeds has stored the candidate's referrer, added
  the candidate to the referrer's candidate set, left every other candidate set as it was,
  and added both identifiers to the user set.
\<close>

theorem add_referral_atomic:
  assumes "reachable_store s"
  shows "case add_referral s r c of
           (Inl e, s') \<Rightarrow> s' = s
         | (Inr ok, s') \<Rightarrow>
             ok \<and> referrals s' = (referrals s)(c \<mapsto> r)
             \<and> set (dd_lookup (reverse_referrals s') r) = insert c (set (dd_lookup (reverse_referrals s) r))
             \<and> (\<forall>k. k \<noteq> r \<longrightarrow> dd_lookup (reverse_referrals s') k = dd_lookup (reverse_referrals s) k)
             \<and> set (users s') = insert r (insert c (set (users s)))"
proof (cases rule: add_referral_cases [where s = s and r = r and c = c])
  case cycle
  have "rr_closed (reverse_referrals s)"
    using reachable_forest_inv [OF assms] by (simp add: forest_inv_def)
  then have "snd (would_create_cycle (reverse_referrals s) r c) = reverse_referrals s"
    using cycle(5,3) by (intro would_create_cycle_closed) auto
  with cycle(6) show ?thesis by simp
next
  case ok
  then show ?thesis by (auto simp: dd_lookup_add)
qed simp_all

text \<open>
  A rejected cycle on a store where the traversal visits the leaf bob before it finds the
  referrer: the store is unchanged.
\<close>

theorem add_referral_atomic_witness:
  "reachable_store (run [(''alice'', ''bob''), (''alice'', ''carol''), (''carol'', ''dave'')])
   \<and> add_referral (run [(''alice'', ''bob''), (''alice'', ''carol''), (''carol'', ''dave'')]) ''dave'' ''alice''
       = (Inl CycleDetected, run [(''alice'', ''bob''), (''alice'', ''carol''), (''carol'', ''dave'')])"
proof -
  let ?s = "run [(''alice'', ''bob''), (''alice'', ''carol''), (''carol'', ''dave'')]"
  have r: "reachable_store ?s" by (rule reachable_run)
  have "fst (add_referral ?s ''dave'' ''alice'') = Inl CycleDetected"
    by (simp add: run_def add_referral_def would_create_cycle_def empty_network_def dd_lookup_def
        dd_touch_def dd_add_def pyset_add_def)
  with add_referral_atomic [OF r, where r = "''dave''" and c = "''alice''"] r show ?thesis
    by (cases "add_referral ?s ''dave'' ''alice''") auto
qed

section \<open>Reachability and ranking (read side of referral\_network.py)\<close>

text \<open>
  The read-side traversals subscript the defaultdict too.  The entry such a subscript stores
  under a missing key is the empty set, and no later lookup can tell it from the missing key
  (\<open>dd_lookup_touch\<close>), so the traversals are modelled by the value they return, reading
  the dictionary through \<open>dd_lookup\<close>; the stores they leave are covered by rule \<open>look\<close>
  of \<open>reachable_store\<close>.

  \<open>get_total_referral_count\<close> and \<open>_get_reachable_users\<close>: the head of the list is the
  left end of the deque.  The count is incremented once per element appended to the queue.
\<close>

function gtrc_loop :: "revidx \<Rightarrow> user list \<Rightarrow> user list \<Rightarrow> nat \<Rightarrow> nat" where
  "gtrc_loop rr visited [] count = count"
| "gtrc_loop rr visited (current # queue) count =
     (if current \<in> set visited then gtrc_loop rr visited queue count
      else gtrc_loop rr (pyset_add visited current)
             (queue @ filter (\<lambda>c. c \<notin> set (pyset_add visited current)) (dd_lookup rr current))
             (count + length (filter (\<lambda>c. c \<notin> set (pyset_add visited current)) (dd_lookup rr current))))"
  by pat_completeness auto
termination
proof (relation "measures [\<lambda>(rr, visited, queue, count). card ((dd_nodes rr \<union> set queue) - set visited),
                           \<lambda>(rr, visited, queue, count). length queue]", goal_cases)
  case 1
  show ?case by simp
next
  case (2 rr visited current queue count)
  then have "(dd_nodes rr \<union> set queue) - set visited = (dd_nodes rr \<union> set (current # queue)) - set visited"
    by auto
  then show ?case by simp
next
  case (3 rr visited current queue count)
  let ?new = "filter (\<lambda>c. c \<notin> set (pyset_add visited current)) (dd_lookup rr current)"
  have "set ?new \<subseteq> dd_nodes rr" using dd_lookup_nodes [of rr current] by auto
  then have "(dd_nodes rr \<union> set (queue @ ?new)) - set (pyset_add visited current)
        \<subset> (dd_nodes rr \<union> set (current # queue)) - set visited"
    using 3 by auto
  then have "card ((dd_nodes rr \<union> set (queue @ ?new)) - set (pyset_add visited current))
        < card ((dd_nodes rr \<union> set (current # queue)) - set visited)"
    by (intro psubset_card_mono) auto
  then show ?case by simp
qed

definition get_total_referral_count :: "network \<Rightarrow> user \<Rightarrow> nat" where
  "get_total_referral_count s user =
     (if user \<notin> set (users s) then 0 else gtrc_loop (reverse_referrals s) [] [user] 0)"

function gru_loop :: "revidx \<Rightarrow> user list \<Rightarrow> user list \<Rightarrow> user list" where
  "gru_loop rr reachable [] = reachable"
| "gru_loop rr reachable (current # queue) =
     (if current \<in> set reachable then gru_loop rr reachable queue
      else gru_loop rr (pyset_add reachable current)
             (queue @ filter (\<lambda>c. c \<notin> set (pyset_add reachable current)) (dd_lookup rr current)))"
  by pat_completeness auto
termination
proof (relation "measures [\<lambda>(rr, visited, queue). card ((dd_nodes rr \<union> set queue) - set visited),
                           \<lambda>(rr, visited, queue). length queue]", goal_cases)
  case 1
  show ?case by simp
next
  case (2 rr visited current queue)
  then have "(dd_nodes rr \<union> set queue) - set visited = (dd_nodes rr \<union> set (current # queue)) - set visited"
    by auto
  then show ?case by simp
next
  case (3 rr visited current queue)
  let ?new = "filter (\<lambda>c. c \<notin> set (pyset_add visited current)) (dd_lookup rr current)"
  have "set ?new \<subseteq> dd_nodes rr" using dd_lookup_nodes [of rr current] by auto
  then have "(dd_nodes rr \<union> set (queue @ ?new)) - set (pyset_add visited current)
        \<subset> (dd_nodes rr \<union> set (current # queue)) - set visited"
    using 3 by auto
  then have "card ((dd_nodes rr \<union> set (queue @ ?new)) - set (pyset_add visited current))
        < card ((dd_nodes rr \<union> set (current # queue)) - set visited)"
    by (intro psubset_card_mono) auto
  then show ?case by simp
qed

definition get_reachable_users :: "network \<Rightarrow> user \<Rightarrow> user list" where
  "get_reachable_users s user =
     (if user \<notin> set (users s) then [] else removeAll user (gru_loop (reverse_referrals s) [] [user]))"

text \<open>
  \<open>get_top_referrers\<close>.  \<open>py_slice_to k xs\<close> is the Python slice \<open>xs[:k]\<close>: for a negative
  \<open>k\<close> it drops the last \<open>-k\<close> elements.  \<open>list.sort(key, reverse=True)\<close> is a stable sort
  by descending key, here a stable sort by the negated count.
\<close>

definition py_slice_to :: "int \<Rightarrow> 'a list \<Rightarrow> 'a list" where
  "py_slice_to k xs = (if 0 \<le> k then take (nat k) xs else take (length xs - nat (- k)) xs)"

definition sort_desc :: "('a \<times> nat) list \<Rightarrow> ('a \<times> nat) list" where
  "sort_desc xs = sort_key (\<lambda>x. - int (snd x)) xs"

definition get_top_referrers :: "network \<Rightarrow> int \<Rightarrow> (user \<times> nat) list" where
  "get_top_referrers s k =
     py_slice_to k (sort_desc
       (map (\<lambda>u. (u, get_total_referral_count s u))
            (filter (\<lambda>u. 0 < get_total_referral_count s u) (users s))))"

text \<open>
  Claim C7 says that \<open>TopReferrers(k)\<close> is empty for every \<open>k \<le> 0\<close>.  The code slices
  with \<open>[:k]\<close>, so on a store with two ranked users \<open>k = -1\<close> returns the first of them.
  The other parts of the claim hold: see \<open>top_referrers_zero\<close>, \<open>top_referrers_all\<close> and
  \<open>top_referrers_members\<close> below.
\<close>

theorem top_referrers_negative_k: "get_top_referrers (run [(''alice'', ''bob''), (''bob'', ''carol'')]) (- 1) = [(''alice'', 2)]"
  by (simp add: get_top_referrers_def py_slice_to_def sort_desc_def get_total_referral_count_def
      run_def add_referral_def would_create_cycle_def empty_network_def dd_lookup_def
        dd_touch_def dd_add_def pyset_add_def)

lemma gru_loop_mono: "set R \<union> set Q \<subseteq> set (gru_loop rr R Q)"
proof (induction rr R Q rule: gru_loop.induct)
  case (1 rr reachable)
  then show ?case by simp
next
  case (2 rr reachable current queue)
  show ?case
  proof (cases "current \<in> set reachable")
    case True
    with 2(1) show ?thesis by auto
  next
    case False
    with 2(2) show ?thesis by auto
  qed
qed

lemma gru_loop_distinct: "distinct R \<Longrightarrow> distinct (gru_loop rr R Q)"
proof (induction rr R Q rule: gru_loop.induct)
  case (1 rr reachable)
  then show ?case by simp
next
  case (2 rr reachable current queue)
  show ?case
  proof (cases "current \<in> set reachable")
    case True
    with 2(1,3) show ?thesis by simp
  next
    case False
    with 2(2,3) show ?thesis by simp
  qed
qed

text \<open>
  The invariant of the breadth-first loop from \<open>u\<close> on a forest: the queue has no
  repetition and is disjoint from the visited set, no child of an unvisited node below \<open>u\<close>
  has been seen, and everything seen lies below \<open>u\<close>.
\<close>

definition bfs_inv :: "(user \<times> user) set \<Rightarrow> user \<Rightarrow> user list \<Rightarrow> user list \<Rightarrow> bool" where
  "bfs_inv E u V Q \<longleftrightarrow>
     distinct Q \<and> set Q \<inter> set V = {} \<and>
     (\<forall>x y. x \<notin> set V \<and> (u, x) \<in> E\<^sup>* \<and> (x, y) \<in> E \<longrightarrow> y \<notin> set V \<union> set Q) \<and>
     (\<forall>x\<in>set V \<union> set Q. (u, x) \<in> E\<^sup>*)"

lemma bfs_inv_step:
  assumes inv: "bfs_inv (succ_rel rr) u V (cur # Q)"
    and up: "\<forall>x x' y. (x, y) \<in> succ_rel rr \<and> (x', y) \<in> succ_rel rr \<longrightarrow> x = x'"
    and di: "distinct (dd_lookup rr cur)"
    and VV: "set V' = insert cur (set V)"
  shows "filter (\<lambda>c. c \<notin> set V') (dd_lookup rr cur) = dd_lookup rr cur"
    and "bfs_inv (succ_rel rr) u V' (Q @ dd_lookup rr cur)"
    and "card (set V' \<union> set (Q @ dd_lookup rr cur)) = card (set V \<union> set (cur # Q)) + length (dd_lookup rr cur)"
proof -
  let ?E = "succ_rel rr" and ?ch = "dd_lookup rr cur"
  have curV: "cur \<notin> set V" and curQ: "cur \<notin> set Q" and dQ: "distinct Q" and QV: "set Q \<inter> set V = {}"
    using inv by (auto simp: bfs_inv_def)
  have reach: "(u, cur) \<in> ?E\<^sup>*" using inv by (simp add: bfs_inv_def)
  have fresh: "y \<notin> set V \<union> set (cur # Q)" if "y \<in> set ?ch" for y
  proof -
    have "(cur, y) \<in> ?E" using that by (simp add: succ_rel_def)
    with inv curV reach show ?thesis unfolding bfs_inv_def by blast
  qed
  show "filter (\<lambda>c. c \<notin> set V') ?ch = ?ch"
    using fresh VV by (intro filter_True) auto
  have a: "distinct (Q @ ?ch)" using dQ di fresh by auto
  have b: "set (Q @ ?ch) \<inter> set V' = {}" using QV curQ fresh VV by auto
  have c: "y \<notin> set V' \<union> set (Q @ ?ch)"
    if "x \<notin> set V'" "(u, x) \<in> ?E\<^sup>*" "(x, y) \<in> ?E" for x y
  proof -
    have xV: "x \<notin> set V" and xc: "x \<noteq> cur" using that(1) VV by auto
    have "y \<notin> set V \<union> set (cur # Q)"
      using inv xV that(2,3) unfolding bfs_inv_def by blast
    moreover have "y \<notin> set ?ch"
    proof
      assume "y \<in> set ?ch"
      then have "(cur, y) \<in> ?E" by (simp add: succ_rel_def)
      with that(3) up have "x = cur" by blast
      with xc show False by simp
    qed
    ultimately show ?thesis using VV by auto
  qed
  have d: "(u, x) \<in> ?E\<^sup>*" if "x \<in> set V' \<union> set (Q @ ?ch)" for x
  proof (cases "x \<in> set ?ch")
    case True
    then have "(cur, x) \<in> ?E" by (simp add: succ_rel_def)
    with reach show ?thesis by (rule rtrancl_into_rtrancl)
  next
    case False
    with that VV have "x \<in> set V \<union> set (cur # Q)" by auto
    moreover have "\<forall>x\<in>set V \<union> set (cur # Q). (u, x) \<in> ?E\<^sup>*"
      using inv unfolding bfs_inv_def by (elim conjE)
    ultimately show ?thesis by blast
  qed
  show "bfs_inv ?E u V' (Q @ ?ch)"
    unfolding bfs_inv_def
  proof (intro conjI allI impI ballI)
    show "distinct (Q @ ?ch)" by (rule a)
    show "set (Q @ ?ch) \<inter> set V' = {}" by (rule b)
    show "y \<notin> set V' \<union> set (Q @ ?ch)"
      if "x \<notin> set V' \<and> (u, x) \<in> ?E\<^sup>* \<and> (x, y) \<in> ?E" for x y
      using that c [of x y] by (elim conjE)
    show "(u, x) \<in> ?E\<^sup>*" if "x \<in> set V' \<union> set (Q @ ?ch)" for x
      using that by (rule d)
  qed
  have e1: "set V' \<union> set (Q @ ?ch) = (set V \<union> set (cur # Q)) \<union> set ?ch" using VV by auto
  have e2: "(set V \<union> set (cur # Q)) \<inter> set ?ch = {}" using fresh by auto
  have "card ((set V \<union> set (cur # Q)) \<union> set ?ch) = card (set V \<union> set (cur # Q)) + card (set ?ch)"
    using e2 by (intro card_Un_disjoint) auto
  then have "card (set V' \<union> set (Q @ ?ch)) = card (set V \<union> set (cur # Q)) + card (set ?ch)"
    by (simp only: e1)
  then show "card (set V' \<union> set (Q @ ?ch)) = card (set V \<union> set (cur # Q)) + length ?ch"
    using di by (simp add: distinct_card)
qed

lemma gtrc_gru:
  "bfs_inv (succ_rel rr) u V Q \<Longrightarrow> set R = set V \<Longrightarrow>
   \<forall>x x' y. (x, y) \<in> succ_rel rr \<and> (x', y) \<in> succ_rel rr \<longrightarrow> x = x' \<Longrightarrow>
   \<forall>k. distinct (dd_lookup rr k) \<Longrightarrow>
     gtrc_loop rr V Q n + card (set V \<union> set Q) = n + card (set (gru_loop rr R Q))"
proof (induction rr V Q n arbitrary: R rule: gtrc_loop.induct)
  case (1 rr visited count)
  then show ?case by simp
next
  case (2 rr visited current queue count)
  note inv = "2.prems"(1) and RV = "2.prems"(2) and up = "2.prems"(3) and di = "2.prems"(4)
  have nv: "current \<notin> set visited" using inv by (auto simp: bfs_inv_def)
  then have nr: "current \<notin> set R" using RV by simp
  let ?V' = "pyset_add visited current" and ?R' = "pyset_add R current"
  let ?ch = "dd_lookup rr current"
  have V': "set ?V' = insert current (set visited)" and R': "set ?R' = insert current (set visited)"
    using RV by simp_all
  have dc: "distinct ?ch" using di by simp
  note st = bfs_inv_step [OF inv up dc V']
  have fv: "filter (\<lambda>c. c \<notin> set ?V') ?ch = ?ch" by (rule st(1))
  have fr: "filter (\<lambda>c. c \<notin> set ?R') ?ch = ?ch" using st(1) V' R' by simp
  have RV': "set ?R' = set ?V'" using V' R' by simp
  have "bfs_inv (succ_rel rr) u ?V' (queue @ filter (\<lambda>c. c \<notin> set ?V') ?ch)"
    using st(2) by (simp only: fv)
  from "2.IH"(2) [OF nv this RV' up di]
  have "gtrc_loop rr ?V' (queue @ ?ch) (count + length ?ch) + card (set ?V' \<union> set (queue @ ?ch))
      = count + length ?ch + card (set (gru_loop rr ?R' (queue @ ?ch)))"
    by (simp only: fv)
  then have "gtrc_loop rr ?V' (queue @ ?ch) (count + length ?ch) + card (set visited \<union> set (current # queue))
      = count + card (set (gru_loop rr ?R' (queue @ ?ch)))"
    using st(3) by linarith
  moreover have "gtrc_loop rr visited (current # queue) count = gtrc_loop rr ?V' (queue @ ?ch) (count + length ?ch)"
    using nv by (simp only: gtrc_loop.simps fv if_False)
  moreover have "gru_loop rr R (current # queue) = gru_loop rr ?R' (queue @ ?ch)"
    using nr by (simp only: gru_loop.simps fr if_False)
  ultimately show ?case by simp
qed

lemma bfs_inv_init:
  assumes "acyclic E" shows "bfs_inv E u [] [u]"
  unfolding bfs_inv_def
proof (intro conjI allI impI ballI)
  show "y \<notin> set [] \<union> set [u]" if h: "x \<notin> set [] \<and> (u, x) \<in> E\<^sup>* \<and> (x, y) \<in> E" for x y
  proof
    assume "y \<in> set [] \<union> set [u]"
    then have "y = u" by simp
    with h have "(u, u) \<in> E\<^sup>+" by (auto intro: rtrancl_into_trancl1)
    with assms show False by (simp add: acyclic_def)
  qed
qed simp_all

text \<open>
  Claim C3.  On every store the class can reach, and for every identifier \<open>u\<close>, known or
  not, \<open>get_total_referral_count\<close> returns the number of elements of the set that
  \<open>_get_reachable_users\<close> returns.
\<close>

theorem total_reach_card:
  assumes "reachable_store s"
  shows "get_total_referral_count s u = card (set (get_reachable_users s u))"
proof (cases "u \<in> set (users s)")
  case False
  then show ?thesis by (simp add: get_total_referral_count_def get_reachable_users_def)
next
  case True
  let ?rr = "reverse_referrals s"
  define F where "F = gru_loop ?rr [] [u]"
  define g where "g = gtrc_loop ?rr [] [u] 0"
  have inv: "forest_inv s" using assms by (rule reachable_forest_inv)
  then have sr: "succ_rel ?rr = edges s" and ac: "acyclic (succ_rel ?rr)"
    and di: "\<forall>k. distinct (dd_lookup ?rr k)"
    by (simp_all add: forest_inv_def)
  have up: "\<forall>x x' y. (x, y) \<in> succ_rel ?rr \<and> (x', y) \<in> succ_rel ?rr \<longrightarrow> x = x'"
    unfolding sr by (auto simp: edges_def)
  have "gtrc_loop ?rr [] [u] 0 + card (set [] \<union> set [u]) = 0 + card (set (gru_loop ?rr [] [u]))"
    using bfs_inv_init [OF ac] _ up di by (rule gtrc_gru) simp
  then have c: "g + 1 = card (set F)" unfolding F_def g_def by simp
  have "set [] \<union> set [u] \<subseteq> set F" unfolding F_def by (rule gru_loop_mono)
  then have "u \<in> set F" by simp
  then have "card (set F - {u}) + 1 = card (set F)"
    using card_Suc_Diff1 [of "set F" u] by simp
  with c have "g = card (set F - {u})" by linarith
  moreover have "get_total_referral_count s u = g"
    using True unfolding g_def get_total_referral_count_def by (simp only: if_False not_not not_True_eq_False)
  moreover have "get_reachable_users s u = removeAll u F"
    using True unfolding F_def get_reachable_users_def by (simp only: if_False not_not not_True_eq_False)
  ultimately show ?thesis by simp
qed

text \<open>On the chain alice, bob, carol both numbers are 2 for alice.\<close>

theorem total_reach_card_witness:
  "reachable_store (run [(''alice'', ''bob''), (''bob'', ''carol'')])
   \<and> get_total_referral_count (run [(''alice'', ''bob''), (''bob'', ''carol'')]) ''alice'' = 2
   \<and> card (set (get_reachable_users (run [(''alice'', ''bob''), (''bob'', ''carol'')]) ''alice'')) = 2"
proof -
  let ?s = "run [(''alice'', ''bob''), (''bob'', ''carol'')]"
  have r: "reachable_store ?s" by (rule reachable_run)
  have "get_total_referral_count ?s ''alice'' = 2"
    by (simp add: get_total_referral_count_def
      run_def add_referral_def would_create_cycle_def empty_network_def dd_lookup_def
        dd_touch_def dd_add_def pyset_add_def)
  with total_reach_card [OF r, of "''alice''"] r show ?thesis by simp
qed

lemma py_slice_to_all: "int (length xs) \<le> k \<Longrightarrow> py_slice_to k xs = xs"
  by (simp add: py_slice_to_def)

lemma py_slice_to_subset: "set (py_slice_to k xs) \<subseteq> set xs"
  by (auto simp: py_slice_to_def dest: in_set_takeD)

lemma set_sort_desc [simp]: "set (sort_desc xs) = set xs"
  by (simp add: sort_desc_def)

lemma length_sort_desc [simp]: "length (sort_desc xs) = length xs"
  by (simp add: sort_desc_def)

lemma sort_desc_sorted: "sorted (map (\<lambda>x. - int (snd x)) (sort_desc xs))"
  by (simp add: sort_desc_def)

lemma py_slice_to_zero: "py_slice_to 0 xs = []"
  by (simp add: py_slice_to_def)

lemma top_referrers_zero: "get_top_referrers s 0 = []"
  unfolding get_top_referrers_def by (rule py_slice_to_zero)

lemma top_referrers_members:
  assumes "(u, n) \<in> set (get_top_referrers s k)"
  shows "u \<in> set (users s) \<and> n = get_total_referral_count s u \<and> 0 < n"
proof -
  have "(u, n) \<in> set (sort_desc (map (\<lambda>u. (u, get_total_referral_count s u))
            (filter (\<lambda>u. 0 < get_total_referral_count s u) (users s))))"
    using assms py_slice_to_subset [of k] unfolding get_top_referrers_def by (rule set_mp [rotated])
  then have "(u, n) \<in> set (map (\<lambda>u. (u, get_total_referral_count s u))
            (filter (\<lambda>u. 0 < get_total_referral_count s u) (users s)))"
    by (simp only: set_sort_desc)
  then show ?thesis by auto
qed

lemma top_referrers_all:
  assumes "int (length (filter (\<lambda>u. 0 < get_total_referral_count s u) (users s))) \<le> k"
  shows "set (get_top_referrers s k)
           = {(u, get_total_referral_count s u) | u. u \<in> set (users s) \<and> 0 < get_total_referral_count s u}"
    and "sorted (map (\<lambda>x. - int (snd x)) (get_top_referrers s k))"
proof -
  let ?xs = "map (\<lambda>u. (u, get_total_referral_count s u))
            (filter (\<lambda>u. 0 < get_total_referral_count s u) (users s))"
  have "int (length (sort_desc ?xs)) \<le> k" using assms by simp
  then have e: "get_top_referrers s k = sort_desc ?xs"
    unfolding get_top_referrers_def by (rule py_slice_to_all)
  show "set (get_top_referrers s k)
           = {(u, get_total_referral_count s u) | u. u \<in> set (users s) \<and> 0 < get_total_referral_count s u}"
    unfolding e by auto
  show "sorted (map (\<lambda>x. - int (snd x)) (get_top_referrers s k))"
    unfolding e by (rule sort_desc_sorted)
qed

section \<open>Flow centrality (referral\_network.py)\<close>

text \<open>
  \<open>_compute_shortest_paths\<close>: \<open>distances\<close> is a dictionary from users to distances.  The
  \<open>for\<close> loop over the candidates of \<open>current\<close> is \<open>csp_inner\<close>; the \<open>while queue\<close> loop is
  \<open>csp_loop\<close>, whose result \<open>None\<close> stands for the \<open>KeyError\<close> that the subscript
  \<open>distances[current]\<close> raises on a missing key (it never does: \<open>csp_total\<close>).
\<close>

fun csp_inner :: "nat \<Rightarrow> (user \<rightharpoonup> nat) \<Rightarrow> user list \<Rightarrow> user list \<Rightarrow> (user \<rightharpoonup> nat) \<times> user list" where
  "csp_inner current_distance distances queue [] = (distances, queue)"
| "csp_inner current_distance distances queue (candidate # rest) =
     (if distances candidate \<noteq> None then csp_inner current_distance distances queue rest
      else csp_inner current_distance (distances(candidate \<mapsto> current_distance + 1))
             (queue @ [candidate]) rest)"

lemma csp_inner_cases:
  "csp_inner d ds q cs = (ds', q') \<Longrightarrow>
     (ds' = ds \<and> q' = q) \<or> (dom ds \<subset> dom ds' \<and> dom ds' \<subseteq> dom ds \<union> set cs)"
proof (induction cs arbitrary: ds q)
  case Nil
  then show ?case by simp
next
  case (Cons c cs)
  show ?case
  proof (cases "ds c")
    case (Some n)
    with Cons.prems have "csp_inner d ds q cs = (ds', q')" by simp
    from Cons.IH [OF this] show ?thesis by auto
  next
    case None
    with Cons.prems have "csp_inner d (ds(c \<mapsto> d + 1)) (q @ [c]) cs = (ds', q')" by simp
    from Cons.IH [OF this]
    have "(dom ds' = dom (ds(c \<mapsto> d + 1))) \<or>
          (dom (ds(c \<mapsto> d + 1)) \<subset> dom ds' \<and> dom ds' \<subseteq> dom (ds(c \<mapsto> d + 1)) \<union> set cs)"
      by blast
    moreover have "dom (ds(c \<mapsto> d + 1)) = insert c (dom ds)" by simp
    moreover have "c \<notin> dom ds" using None by (simp add: domIff)
    ultimately have "dom ds \<subset> dom ds' \<and> dom ds' \<subseteq> dom ds \<union> set (c # cs)"
      by (simp only: set_simps) blast
    then show ?thesis by (rule disjI2)
  qed
qed

function csp_loop :: "revidx \<Rightarrow> (user \<rightharpoonup> nat) \<Rightarrow> user list \<Rightarrow> (user \<rightharpoonup> nat) option" where
  "csp_loop rr distances [] = Some distances"
| "csp_loop rr distances (current # queue) =
     (case distances current of
        None \<Rightarrow> None
      | Some current_distance \<Rightarrow>
          csp_loop rr (fst (csp_inner current_distance distances queue (dd_lookup rr current)))
                      (snd (csp_inner current_distance distances queue (dd_lookup rr current))))"
  by pat_completeness auto
termination
proof (relation "measures [\<lambda>(rr, distances, queue). card (dd_nodes rr - dom distances),
                           \<lambda>(rr, distances, queue). length queue]", goal_cases)
  case 1
  show ?case by simp
next
  case (2 rr distances current queue d)
  obtain ds' q' where r: "csp_inner d distances queue (dd_lookup rr current) = (ds', q')"
    by (cases "csp_inner d distances queue (dd_lookup rr current)")
  from csp_inner_cases [OF r] show ?case
  proof
    assume "ds' = distances \<and> q' = queue"
    with r show ?thesis by simp
  next
    assume a: "dom distances \<subset> dom ds' \<and> dom ds' \<subseteq> dom distances \<union> set (dd_lookup rr current)"
    then obtain x where x: "x \<in> dom ds'" "x \<notin> dom distances" by blast
    with a have "x \<in> dd_nodes rr" using dd_lookup_nodes [of rr current] by blast
    with x a have "dd_nodes rr - dom ds' \<subset> dd_nodes rr - dom distances" by blast
    then have "card (dd_nodes rr - dom ds') < card (dd_nodes rr - dom distances)"
      by (intro psubset_card_mono) auto
    with r show ?thesis by simp
  qed
qed

definition compute_shortest_paths :: "network \<Rightarrow> user \<Rightarrow> (user \<rightharpoonup> nat) option" where
  "compute_shortest_paths s start = csp_loop (reverse_referrals s) [start \<mapsto> 0] [start]"

text \<open>
  \<open>_is_on_shortest_path\<close>, with the three membership tests followed by the three
  subscripts they guard.
\<close>

definition is_on_shortest_path ::
    "user \<Rightarrow> user \<Rightarrow> user \<Rightarrow> (user \<rightharpoonup> nat) \<Rightarrow> (user \<rightharpoonup> nat) \<Rightarrow> bool" where
  "is_on_shortest_path start end target distances_from_start distances_from_target =
     (if start = end \<or> start = target \<or> end = target then False
      else case distances_from_start end of
        None \<Rightarrow> False
      | Some dist_start_to_end \<Rightarrow>
         (case distances_from_start target of
            None \<Rightarrow> False
          | Some dist_start_to_target \<Rightarrow>
             (case distances_from_target end of
                None \<Rightarrow> False
              | Some dist_target_to_end \<Rightarrow>
                  dist_start_to_target + dist_target_to_end = dist_start_to_end)))"

text \<open>
  \<open>get_flow_centrality\<close>.  \<open>centrality_scores\<close> is a dictionary in insertion order, an
  association list whose keys never change; \<open>centrality_scores[u] += 1\<close> is \<open>inc_score\<close>.
  \<open>all_distances\<close> is the dictionary of the distance tables, subscripted through
  \<open>dict_get\<close>.  The three nested \<open>for\<close> loops are \<open>fc_outer\<close>, \<open>fc_inner2\<close> and
  \<open>fc_inner3\<close>; \<open>enumerate\<close> pairs each user with its index.  \<open>sorted(..., reverse=True)\<close>
  is the stable descending sort.  A \<open>KeyError\<close> of a distance computation would leave
  \<open>get_flow_centrality\<close>, which is the result \<open>None\<close>.
\<close>

type_synonym scores = "(user \<times> nat) list"

definition inc_score :: "scores \<Rightarrow> user \<Rightarrow> scores" where
  "inc_score sc u = map (\<lambda>(v, n). if v = u then (v, n + 1) else (v, n)) sc"

definition dict_get :: "(user \<times> (user \<rightharpoonup> nat)) list \<Rightarrow> user \<Rightarrow> (user \<rightharpoonup> nat)" where
  "dict_get al u = (case map_of al u of Some d \<Rightarrow> d | None \<Rightarrow> Map.empty)"

fun fc_inner3 :: "user \<Rightarrow> user \<Rightarrow> (user \<Rightarrow> (user \<rightharpoonup> nat)) \<Rightarrow> user list \<Rightarrow> scores \<Rightarrow> scores" where
  "fc_inner3 user1 user2 ad [] sc = sc"
| "fc_inner3 user1 user2 ad (user3 # rest) sc =
     (if user3 = user1 \<or> user3 = user2 then fc_inner3 user1 user2 ad rest sc
      else if is_on_shortest_path user1 user2 user3 (ad user1) (ad user3)
           then fc_inner3 user1 user2 ad rest (inc_score sc user3)
           else fc_inner3 user1 user2 ad rest sc)"

fun fc_inner2 :: "user list \<Rightarrow> (user \<Rightarrow> (user \<rightharpoonup> nat)) \<Rightarrow> nat \<Rightarrow> user \<Rightarrow> (nat \<times> user) list \<Rightarrow> scores \<Rightarrow> scores" where
  "fc_inner2 us ad i user1 [] sc = sc"
| "fc_inner2 us ad i user1 ((j, user2) # rest) sc =
     (if i = j then fc_inner2 us ad i user1 rest sc
      else if ad user1 user2 \<noteq> None
           then fc_inner2 us ad i user1 rest (fc_inner3 user1 user2 ad us sc)
           else fc_inner2 us ad i user1 rest sc)"

fun fc_outer :: "user list \<Rightarrow> (user \<Rightarrow> (user \<rightharpoonup> nat)) \<Rightarrow> (nat \<times> user) list \<Rightarrow> (nat \<times> user) list \<Rightarrow> scores \<Rightarrow> scores" where
  "fc_outer us ad el [] sc = sc"
| "fc_outer us ad el ((i, user1) # rest) sc = fc_outer us ad el rest (fc_inner2 us ad i user1 el sc)"

definition get_flow_centrality :: "network \<Rightarrow> scores option" where
  "get_flow_centrality s =
     (if length (users s) < 3 then Some []
      else case those (map (compute_shortest_paths s) (users s)) of
        None \<Rightarrow> None
      | Some tables \<Rightarrow>
          Some (sort_desc
            (fc_outer (users s) (dict_get (zip (users s) tables))
               (enumerate 0 (users s)) (enumerate 0 (users s))
               (map (\<lambda>u. (u, 0)) (users s)))))"

lemma chain3_store: "run [(''A'', ''B''), (''B'', ''C'')] =
   \<lparr>referrals = [''B'' \<mapsto> ''A'', ''C'' \<mapsto> ''B''],
    reverse_referrals = [(''B'', [''C'']), (''A'', [''B'']), (''C'', [])],
    users = [''A'', ''B'', ''C'']\<rparr>"
  by (simp add: run_def add_referral_def would_create_cycle_def empty_network_def dd_lookup_def
        dd_touch_def dd_add_def pyset_add_def)

lemma chain3_centrality: "get_flow_centrality (run [(''A'', ''B''), (''B'', ''C'')]) = Some [(''B'', 1), (''A'', 0), (''C'', 0)]"
  unfolding chain3_store
  by (simp add: get_flow_centrality_def compute_shortest_paths_def dd_lookup_def dict_get_def
      is_on_shortest_path_def inc_score_def sort_desc_def enumerate_eq_zip upt_rec)

text \<open>
  What the three loops add to the score of one user: \<open>score_of\<close> reads a score, and
  \<open>on_path_count a b ad v us\<close> counts the iterations of the innermost loop for the pair
  \<open>(a, b)\<close> that increment the score of \<open>v\<close>.
\<close>

definition score_of :: "scores \<Rightarrow> user \<Rightarrow> nat" where
  "score_of sc v = (case map_of sc v of Some n \<Rightarrow> n | None \<Rightarrow> 0)"

definition on_path_count :: "user \<Rightarrow> user \<Rightarrow> (user \<Rightarrow> (user \<rightharpoonup> nat)) \<Rightarrow> user \<Rightarrow> user list \<Rightarrow> nat" where
  "on_path_count a b ad v us =
     length (filter (\<lambda>w. w = v \<and> w \<noteq> a \<and> w \<noteq> b \<and> is_on_shortest_path a b w (ad a) (ad w)) us)"

lemma inc_score_keys [simp]: "map fst (inc_score sc u) = map fst sc"
  by (induction sc) (auto simp: inc_score_def)

lemma score_of_inc:
  "score_of (inc_score sc u) v = score_of sc v + (if v = u \<and> v \<in> fst ` set sc then 1 else 0)"
proof (induction sc)
  case Nil
  show ?case by (simp add: inc_score_def score_of_def)
next
  case (Cons x sc)
  obtain k n where x: "x = (k, n)" by (cases x)
  have ic: "inc_score ((k', n) # sc) u = (if k' = u then (k', n + 1) else (k', n)) # inc_score sc u" for k'
    by (simp add: inc_score_def)
  show ?case
  proof (cases "k = v")
    case True
    then show ?thesis by (simp add: x ic score_of_def)
  next
    case False
    then have "score_of (inc_score (x # sc) u) v = score_of (inc_score sc u) v"
      by (auto simp: x ic score_of_def)
    moreover have "score_of (x # sc) v = score_of sc v" using False by (simp add: score_of_def x)
    moreover have "v \<in> fst ` set (x # sc) \<longleftrightarrow> v \<in> fst ` set sc" using False by (auto simp: x)
    ultimately show ?thesis using Cons.IH by simp
  qed
qed

lemma fc_inner3_keys [simp]: "map fst (fc_inner3 a b ad L sc) = map fst sc"
  by (induction L arbitrary: sc) simp_all

lemma keys_set: "map fst sc' = map fst sc \<Longrightarrow> fst ` set sc' = fst ` set sc"
  by (metis set_map)

lemma fc_inner3_score:
  "v \<in> fst ` set sc \<Longrightarrow>
     score_of (fc_inner3 a b ad L sc) v = score_of sc v + on_path_count a b ad v L"
proof (induction L arbitrary: sc)
  case Nil
  show ?case by (simp add: on_path_count_def)
next
  case (Cons w L)
  have k: "v \<in> fst ` set (inc_score sc w)" using Cons.prems keys_set [OF inc_score_keys] by simp
  show ?case
  proof (cases "w = a \<or> w = b")
    case True
    then have "fc_inner3 a b ad (w # L) sc = fc_inner3 a b ad L sc" by auto
    moreover have "on_path_count a b ad v (w # L) = on_path_count a b ad v L"
      using True by (auto simp: on_path_count_def)
    ultimately show ?thesis using Cons.IH [OF Cons.prems] by simp
  next
    case False
    show ?thesis
    proof (cases "is_on_shortest_path a b w (ad a) (ad w)")
      case True
      have "fc_inner3 a b ad (w # L) sc = fc_inner3 a b ad L (inc_score sc w)"
        using False True by simp
      moreover have "on_path_count a b ad v (w # L) = (if w = v then 1 else 0) + on_path_count a b ad v L"
        using False True by (auto simp: on_path_count_def)
      moreover have "score_of (inc_score sc w) v = score_of sc v + (if w = v then 1 else 0)"
        using Cons.prems by (auto simp: score_of_inc)
      ultimately show ?thesis using Cons.IH [OF k] by simp
    next
      case nop: False
      have "fc_inner3 a b ad (w # L) sc = fc_inner3 a b ad L sc"
        using False nop by simp
      moreover have "on_path_count a b ad v (w # L) = on_path_count a b ad v L"
        using False nop by (auto simp: on_path_count_def)
      ultimately show ?thesis using Cons.IH [OF Cons.prems] by simp
    qed
  qed
qed

lemma fc_inner2_keys [simp]: "map fst (fc_inner2 us ad i a E sc) = map fst sc"
  by (induction E arbitrary: sc) auto

lemma fc_inner2_score:
  "v \<in> fst ` set sc \<Longrightarrow>
     score_of (fc_inner2 us ad i a E sc) v
       = score_of sc v
         + sum_list (map (\<lambda>jb. if i \<noteq> fst jb \<and> ad a (snd jb) \<noteq> None
                               then on_path_count a (snd jb) ad v us else 0) E)"
proof (induction E arbitrary: sc)
  case Nil
  show ?case by simp
next
  case (Cons jb E)
  obtain j b where jb: "jb = (j, b)" by (cases jb)
  show ?case
  proof (cases "i \<noteq> j \<and> ad a b \<noteq> None")
    case True
    let ?sc = "fc_inner3 a b ad us sc"
    have k: "v \<in> fst ` set ?sc" using Cons.prems keys_set [OF fc_inner3_keys] by simp
    have "fc_inner2 us ad i a (jb # E) sc = fc_inner2 us ad i a E ?sc" using True by (simp add: jb)
    moreover have "score_of ?sc v = score_of sc v + on_path_count a b ad v us"
      using Cons.prems by (rule fc_inner3_score)
    ultimately show ?thesis using Cons.IH [OF k] True by (simp add: jb)
  next
    case False
    then have "fc_inner2 us ad i a (jb # E) sc = fc_inner2 us ad i a E sc" by (auto simp: jb)
    then show ?thesis using Cons.IH [OF Cons.prems] False by (auto simp: jb)
  qed
qed

lemma fc_outer_keys [simp]: "map fst (fc_outer us ad el E sc) = map fst sc"
  by (induction E arbitrary: sc) auto

lemma fc_outer_score:
  "v \<in> fst ` set sc \<Longrightarrow>
     score_of (fc_outer us ad el E sc) v
       = score_of sc v
         + sum_list (map (\<lambda>ia. sum_list (map (\<lambda>jb. if fst ia \<noteq> fst jb \<and> ad (snd ia) (snd jb) \<noteq> None
                               then on_path_count (snd ia) (snd jb) ad v us else 0) el)) E)"
proof (induction E arbitrary: sc)
  case Nil
  show ?case by simp
next
  case (Cons ia E)
  obtain i a where ia: "ia = (i, a)" by (cases ia)
  let ?sc = "fc_inner2 us ad i a el sc"
  have k: "v \<in> fst ` set ?sc" using Cons.prems keys_set [OF fc_inner2_keys] by simp
  have "fc_outer us ad el (ia # E) sc = fc_outer us ad el E ?sc" by (simp add: ia)
  moreover note fc_inner2_score [OF Cons.prems, of us ad i a el]
  ultimately show ?case using Cons.IH [OF k] by (simp add: ia cong: if_cong)
qed

subsection \<open>The scores that flow centrality returns\<close>

lemma csp_inner_queue:
  "set q \<subseteq> dom ds \<Longrightarrow>
     set (snd (csp_inner d ds q cs)) \<subseteq> dom (fst (csp_inner d ds q cs))"
proof (induction cs arbitrary: ds q)
  case Nil
  then show ?case by simp
next
  case (Cons c cs)
  show ?case
  proof (cases "ds c")
    case None
    have a: "set (q @ [c]) \<subseteq> dom (ds(c \<mapsto> d + 1))" using Cons.prems by auto
    have step: "csp_inner d ds q (c # cs) = csp_inner d (ds(c \<mapsto> d + 1)) (q @ [c]) cs"
      using None by simp
    show ?thesis unfolding step by (rule Cons.IH [OF a])
  next
    case (Some n)
    with Cons.IH [OF Cons.prems] show ?thesis by simp
  qed
qed

lemma csp_loop_total: "set q \<subseteq> dom ds \<Longrightarrow> csp_loop rr ds q \<noteq> None"
proof (induction rr ds q rule: csp_loop.induct)
  case (1 rr distances)
  show ?case by simp
next
  case (2 rr distances current queue)
  from 2(2) obtain d where d: "distances current = Some d" by auto
  have q: "set queue \<subseteq> dom distances" using 2(2) by simp
  from 2(1) [OF d csp_inner_queue [OF q]] d show ?case by simp
qed

lemma csp_total: "compute_shortest_paths s start \<noteq> None"
  unfolding compute_shortest_paths_def by (rule csp_loop_total) simp

lemma those_map_Some:
  "(\<And>x. x \<in> set xs \<Longrightarrow> f x \<noteq> None) \<Longrightarrow> those (map f xs) = Some (map (\<lambda>x. the (f x)) xs)"
  by (induction xs) (auto split: option.splits)

lemma dict_get_zip:
  "u \<in> set us \<Longrightarrow> dict_get (zip us (map g us)) u = g u"
  by (simp add: dict_get_def map_of_zip_map)

lemma filter_eq_distinct:
  "distinct us \<Longrightarrow> length (filter (\<lambda>w. w = v \<and> Q w) us) = (if v \<in> set us \<and> Q v then 1 else 0)"
proof (induction us)
  case Nil
  show ?case by simp
next
  case (Cons u us)
  then show ?case by auto
qed

lemma enumerate_index_eq:
  assumes "distinct us" "(i, a) \<in> set (enumerate 0 us)" "(j, b) \<in> set (enumerate 0 us)"
  shows "i = j \<longleftrightarrow> a = b"
  using assms by (auto simp: in_set_enumerate_eq nth_eq_iff_index_eq)

lemma sum_list_enumerate_snd:
  "sum_list (map (\<lambda>jb. g (snd jb)) (enumerate 0 us)) = sum_list (map g us)"
proof -
  have "map (\<lambda>jb. g (snd jb)) (enumerate 0 us) = map g (map snd (enumerate 0 us))"
    by (simp only: map_map comp_def)
  then show ?thesis by (simp only: map_snd_enumerate)
qed

lemma double_sum_card:
  assumes "distinct us"
  shows "sum_list (map (\<lambda>a. sum_list (map (\<lambda>b. if R a b then 1 else 0) us)) us)
       = card {(a, b). a \<in> set us \<and> b \<in> set us \<and> R a b}"
proof -
  have inner: "sum_list (map (\<lambda>b. if R a b then 1 else 0) us) = card {b \<in> set us. R a b}" for a
  proof -
    have "sum_list (map (\<lambda>b. if R a b then 1 else 0) us) = (\<Sum>b\<in>set us. if R a b then 1 else 0)"
      using assms by (rule sum_list_distinct_conv_sum_set)
    also have "\<dots> = card {b \<in> set us. R a b}"
      by (simp add: sum.If_cases Int_def)
    finally show ?thesis .
  qed
  have "sum_list (map (\<lambda>a. sum_list (map (\<lambda>b. if R a b then 1 else 0) us)) us)
      = (\<Sum>a\<in>set us. card {b \<in> set us. R a b})"
    using assms by (simp add: inner sum_list_distinct_conv_sum_set)
  also have "\<dots> = card (SIGMA a:set us. {b \<in> set us. R a b})"
    by (simp add: card_SigmaI)
  also have "(SIGMA a:set us. {b \<in> set us. R a b}) = {(a, b). a \<in> set us \<and> b \<in> set us \<and> R a b}"
    by auto
  finally show ?thesis .
qed

subsection \<open>The distance tables hold shortest-path lengths\<close>

text \<open>
  The \<open>for\<close> loop of \<open>_compute_shortest_paths\<close> keeps the entries the table has, gives
  every candidate without an entry the distance of \<open>current\<close> plus one, and appends exactly
  these candidates to the queue.
\<close>

lemma csp_inner_fst:
  "fst (csp_inner d ds q cs) x =
     (case ds x of Some n \<Rightarrow> Some n | None \<Rightarrow> if x \<in> set cs then Some (d + 1) else None)"
proof (induction cs arbitrary: ds q)
  case Nil
  show ?case by (simp split: option.splits)
next
  case (Cons c cs)
  show ?case
  proof (cases "ds c")
    case None
    have step: "csp_inner d ds q (c # cs) = csp_inner d (ds(c \<mapsto> d + 1)) (q @ [c]) cs"
      using None by simp
    show ?thesis unfolding step Cons.IH using None by (auto split: option.splits)
  next
    case (Some n)
    have step: "csp_inner d ds q (c # cs) = csp_inner d ds q cs"
      using Some by simp
    show ?thesis unfolding step Cons.IH using Some by (auto split: option.splits)
  qed
qed

lemma csp_inner_snd:
  "\<exists>new. snd (csp_inner d ds q cs) = q @ new \<and> set new = set cs - dom ds"
proof (induction cs arbitrary: ds q)
  case Nil
  show ?case by simp
next
  case (Cons c cs)
  show ?case
  proof (cases "ds c")
    case None
    from Cons.IH [of "ds(c \<mapsto> d + 1)" "q @ [c]"] obtain new where
      n: "snd (csp_inner d (ds(c \<mapsto> d + 1)) (q @ [c]) cs) = (q @ [c]) @ new"
         "set new = set cs - dom (ds(c \<mapsto> d + 1))" by blast
    have "snd (csp_inner d ds q (c # cs)) = q @ (c # new)" using None n(1) by simp
    moreover have "set (c # new) = set (c # cs) - dom ds" using None n(2) by (auto simp: domIff)
    ultimately show ?thesis by blast
  next
    case (Some n)
    from Cons.IH [of ds q] obtain new where
      n: "snd (csp_inner d ds q cs) = q @ new" "set new = set cs - dom ds" by blast
    have "snd (csp_inner d ds q (c # cs)) = q @ new" using Some n(1) by simp
    moreover have "set new = set (c # cs) - dom ds" using Some n(2) by (auto simp: domIff)
    ultimately show ?thesis by blast
  qed
qed

text \<open>
  The invariant of the \<open>while queue\<close> loop started at \<open>a\<close>: every entry \<open>n\<close> of the table
  is the length of some path from \<open>a\<close>, every user that has left the queue has all its
  candidates in the table at most one step further, and the queue is sorted by distance
  with no entry of the table more than one step beyond its head.
\<close>

definition bfs_dist_inv :: "(user \<times> user) set \<Rightarrow> user \<Rightarrow> (user \<rightharpoonup> nat) \<Rightarrow> user list \<Rightarrow> bool" where
  "bfs_dist_inv E a ds q \<longleftrightarrow>
     ds a = Some 0 \<and>
     (\<forall>x n. ds x = Some n \<longrightarrow> (a, x) \<in> E ^^ n) \<and>
     set q \<subseteq> dom ds \<and>
     (\<forall>x y n. ds x = Some n \<and> x \<notin> set q \<and> (x, y) \<in> E \<longrightarrow> (\<exists>m. ds y = Some m \<and> m \<le> n + 1)) \<and>
     sorted (map (\<lambda>x. the (ds x)) q) \<and>
     (\<forall>x n. q \<noteq> [] \<and> ds x = Some n \<longrightarrow> n \<le> the (ds (hd q)) + 1)"

lemma bfs_dist_inv_step:
  assumes inv: "bfs_dist_inv (succ_rel rr) a ds (cur # rest)" and k: "ds cur = Some k"
  shows "bfs_dist_inv (succ_rel rr) a (fst (csp_inner k ds rest (dd_lookup rr cur)))
           (snd (csp_inner k ds rest (dd_lookup rr cur)))"
proof -
  let ?E = "succ_rel rr"
  let ?cs = "dd_lookup rr cur"
  define ds' where "ds' = fst (csp_inner k ds rest ?cs)"
  define q' where "q' = snd (csp_inner k ds rest ?cs)"
  have i1: "ds a = Some 0"
    and i2: "\<And>x n. ds x = Some n \<Longrightarrow> (a, x) \<in> ?E ^^ n"
    and i3: "set (cur # rest) \<subseteq> dom ds"
    and i4: "\<And>x y n. ds x = Some n \<Longrightarrow> x \<notin> set (cur # rest) \<Longrightarrow> (x, y) \<in> ?E \<Longrightarrow> \<exists>m. ds y = Some m \<and> m \<le> n + 1"
    and i5: "sorted (map (\<lambda>x. the (ds x)) (cur # rest))"
    and i6: "\<And>x n. ds x = Some n \<Longrightarrow> n \<le> k + 1"
    using inv k unfolding bfs_dist_inv_def by auto
  have old: "ds' x = Some n" if "ds x = Some n" for x n
    using that unfolding ds'_def by (simp add: csp_inner_fst)
  have new: "ds' x = Some (k + 1)" if "ds x = None" "x \<in> set ?cs" for x
    using that unfolding ds'_def by (simp add: csp_inner_fst)
  have val: "ds x = Some n \<or> (ds x = None \<and> x \<in> set ?cs \<and> n = k + 1)" if "ds' x = Some n" for x n
    using that unfolding ds'_def by (auto simp: csp_inner_fst split: option.splits if_splits)
  obtain nw where nw: "q' = rest @ nw" "set nw = set ?cs - dom ds"
    using csp_inner_snd [of k ds rest ?cs] unfolding q'_def by blast
  have edge: "(cur, y) \<in> ?E \<longleftrightarrow> y \<in> set ?cs" for y by (simp add: succ_rel_def)
  have restv: "\<exists>n. ds x = Some n \<and> ds' x = Some n \<and> k \<le> n \<and> n \<le> k + 1" if "x \<in> set rest" for x
  proof -
    from that i3 obtain n where n: "ds x = Some n" by auto
    have "k \<le> n" using i5 that n k by auto
    with n old [OF n] i6 [OF n] show ?thesis by simp
  qed
  have nwv: "ds' x = Some (k + 1)" if "x \<in> set nw" for x
    using that nw(2) new by (auto simp: domIff)
  have a1: "ds' a = Some 0" using i1 by (rule old)
  have a2: "(a, x) \<in> ?E ^^ n" if "ds' x = Some n" for x n
  proof -
    from val [OF that] show ?thesis
    proof
      assume "ds x = Some n"
      then show ?thesis by (rule i2)
    next
      assume h: "ds x = None \<and> x \<in> set ?cs \<and> n = k + 1"
      have "(a, cur) \<in> ?E ^^ k" using k by (rule i2)
      moreover have "(cur, x) \<in> ?E" using h edge by simp
      ultimately have "(a, x) \<in> ?E ^^ Suc k" by (rule relpow_Suc_I)
      with h show ?thesis by simp
    qed
  qed
  have a3: "set q' \<subseteq> dom ds'"
  proof
    fix x assume "x \<in> set q'"
    then have "x \<in> set rest \<or> x \<in> set nw" using nw(1) by simp
    then show "x \<in> dom ds'"
    proof
      assume "x \<in> set rest"
      from restv [OF this] show ?thesis by auto
    next
      assume "x \<in> set nw"
      from nwv [OF this] show ?thesis by auto
    qed
  qed
  have a4: "\<exists>m. ds' y = Some m \<and> m \<le> n + 1"
    if h: "ds' x = Some n" "x \<notin> set q'" "(x, y) \<in> ?E" for x y n
  proof -
    have xr: "x \<notin> set rest" and xn: "x \<notin> set nw" using h(2) nw(1) by simp_all
    have dx: "ds x = Some n"
    proof -
      from val [OF h(1)] show ?thesis
      proof
        assume "ds x = None \<and> x \<in> set ?cs \<and> n = k + 1"
        then have "x \<in> set nw" using nw(2) by (auto simp: domIff)
        with xn show ?thesis by simp
      qed
    qed
    show ?thesis
    proof (cases "x = cur")
      case True
      then have nk: "n = k" using dx k by simp
      have yc: "y \<in> set ?cs" using h(3) True edge by simp
      show ?thesis
      proof (cases "ds y")
        case None
        from new [OF None yc] nk show ?thesis by simp
      next
        case (Some m)
        from old [OF Some] i6 [OF Some] nk show ?thesis by simp
      qed
    next
      case False
      then have "x \<notin> set (cur # rest)" using xr by simp
      from i4 [OF dx this h(3)] obtain m where m: "ds y = Some m" "m \<le> n + 1" by blast
      from old [OF m(1)] m(2) show ?thesis by simp
    qed
  qed
  have a5: "sorted (map (\<lambda>x. the (ds' x)) q')"
  proof -
    have "the (ds' x) = the (ds x)" if "x \<in> set rest" for x
      using restv [OF that] by auto
    then have e: "map (\<lambda>x. the (ds' x)) rest = map (\<lambda>x. the (ds x)) rest"
      by (intro map_cong refl)
    have "sorted (map (\<lambda>x. the (ds x)) rest)" using i5 by simp
    then have s1: "sorted (map (\<lambda>x. the (ds' x)) rest)" by (simp only: e)
    have e2: "map (\<lambda>x. the (ds' x)) nw = map (\<lambda>x. k + 1) nw"
      using nwv by (intro map_cong refl) simp
    have s2: "sorted (map (\<lambda>x. the (ds' x)) nw)"
      by (simp only: e2 map_replicate_const sorted_replicate)
    have s3: "the (ds' x) \<le> the (ds' y)" if "x \<in> set rest" "y \<in> set nw" for x y
      using restv [OF that(1)] nwv [OF that(2)] by auto
    show ?thesis unfolding nw(1) using s1 s2 s3 by (auto simp: sorted_append)
  qed
  have a6: "n \<le> the (ds' (hd q')) + 1" if h: "q' \<noteq> []" "ds' x = Some n" for x n
  proof -
    have "hd q' \<in> set q'" using h(1) by simp
    then have "hd q' \<in> set rest \<or> hd q' \<in> set nw" using nw(1) by simp
    then have "k \<le> the (ds' (hd q'))"
    proof
      assume "hd q' \<in> set rest"
      from restv [OF this] show ?thesis by auto
    next
      assume "hd q' \<in> set nw"
      from nwv [OF this] show ?thesis by simp
    qed
    moreover have "n \<le> k + 1" using val [OF h(2)] i6 by auto
    ultimately show ?thesis by simp
  qed
  have "bfs_dist_inv ?E a ds' q'"
    unfolding bfs_dist_inv_def using a1 a2 a3 a4 a5 a6 by blast
  then show ?thesis unfolding ds'_def q'_def .
qed

lemma csp_loop_inv:
  "bfs_dist_inv (succ_rel rr) a ds q \<Longrightarrow> csp_loop rr ds q = Some res \<Longrightarrow>
     bfs_dist_inv (succ_rel rr) a res []"
proof (induction rr ds q rule: csp_loop.induct)
  case (1 rr distances)
  then show ?case by simp
next
  case (2 rr distances current queue)
  from 2(2) have "current \<in> dom distances" by (simp add: bfs_dist_inv_def)
  then obtain k where k: "distances current = Some k" by auto
  have step: "csp_loop rr (fst (csp_inner k distances queue (dd_lookup rr current)))
                (snd (csp_inner k distances queue (dd_lookup rr current))) = Some res"
    using 2(3) k by simp
  from 2(1) [OF k bfs_dist_inv_step [OF 2(2) k] step] show ?case .
qed

lemma bfs_dist_inv_init: "bfs_dist_inv E a [a \<mapsto> 0] [a]"
  by (simp add: bfs_dist_inv_def)

text \<open>
  \<open>hops E a b\<close> is the length of a shortest path from \<open>a\<close> to \<open>b\<close> along \<open>E\<close>.
\<close>

definition hops :: "(user \<times> user) set \<Rightarrow> user \<Rightarrow> user \<Rightarrow> nat" where
  "hops E a b = (LEAST n. (a, b) \<in> E ^^ n)"

lemma csp_shortest:
  assumes r: "compute_shortest_paths s a = Some da"
  shows "da b = (if (a, b) \<in> (succ_rel (reverse_referrals s))\<^sup>* then Some (hops (succ_rel (reverse_referrals s)) a b) else None)"
proof -
  let ?E = "succ_rel (reverse_referrals s)"
  have inv: "bfs_dist_inv ?E a da []"
    using r unfolding compute_shortest_paths_def
    by (intro csp_loop_inv [OF bfs_dist_inv_init])
  then have z: "da a = Some 0"
    and snd: "\<And>x n. da x = Some n \<Longrightarrow> (a, x) \<in> ?E ^^ n"
    and cl: "\<And>x y n. da x = Some n \<Longrightarrow> (x, y) \<in> ?E \<Longrightarrow> \<exists>m. da y = Some m \<and> m \<le> n + 1"
    unfolding bfs_dist_inv_def by auto
  have compl: "\<exists>n. da x = Some n \<and> n \<le> m" if "(a, x) \<in> ?E ^^ m" for x m
    using that
  proof (induction m arbitrary: x)
    case 0
    then show ?case using z by simp
  next
    case (Suc m)
    then obtain y where y: "(a, y) \<in> ?E ^^ m" "(y, x) \<in> ?E" by auto
    from Suc.IH [OF y(1)] obtain n where n: "da y = Some n" "n \<le> m" by blast
    from cl [OF n(1) y(2)] n(2) show ?case by auto
  qed
  show ?thesis
  proof (cases "(a, b) \<in> ?E\<^sup>*")
    case True
    then obtain m where m: "(a, b) \<in> ?E ^^ m" by (auto simp: rtrancl_power)
    from compl [OF m] obtain n where n: "da b = Some n" by blast
    have "(LEAST j. (a, b) \<in> ?E ^^ j) = n"
    proof (rule Least_equality)
      show "(a, b) \<in> ?E ^^ n" using n by (rule snd)
    next
      fix j assume "(a, b) \<in> ?E ^^ j"
      from compl [OF this] n show "n \<le> j" by simp
    qed
    with True n show ?thesis by (simp add: hops_def)
  next
    case False
    have "da b = None"
    proof (cases "da b")
      case (Some n)
      from snd [OF Some] have "(a, b) \<in> ?E\<^sup>*" by (auto simp: rtrancl_power)
      with False show ?thesis by simp
    qed simp
    with False show ?thesis by simp
  qed
qed

text \<open>
  The ordered pairs \<open>(a, b)\<close> of users, both different from \<open>v\<close> and from each other, such
  that \<open>b\<close> is reachable from \<open>a\<close>, \<open>v\<close> is reachable from \<open>a\<close>, \<open>b\<close> is reachable
  from \<open>v\<close>, and \<open>d(a,v) + d(v,b) = d(a,b)\<close>, where reachability is along the fan-out
  edges of the reverse index and \<open>d\<close> is the length of a shortest path.
\<close>

definition shortest_path_pairs :: "network \<Rightarrow> user \<Rightarrow> (user \<times> user) set" where
  "shortest_path_pairs s v =
     {(a, b). a \<in> set (users s) \<and> b \<in> set (users s) \<and> a \<noteq> b \<and> a \<noteq> v \<and> b \<noteq> v \<and>
        (a, b) \<in> (succ_rel (reverse_referrals s))\<^sup>* \<and>
        (a, v) \<in> (succ_rel (reverse_referrals s))\<^sup>* \<and>
        (v, b) \<in> (succ_rel (reverse_referrals s))\<^sup>* \<and>
        hops (succ_rel (reverse_referrals s)) a v + hops (succ_rel (reverse_referrals s)) v b
          = hops (succ_rel (reverse_referrals s)) a b}"

lemma is_on_shortest_path_iff:
  "is_on_shortest_path a b v da dv \<longleftrightarrow>
     a \<noteq> b \<and> a \<noteq> v \<and> b \<noteq> v \<and>
     (\<exists>dab dav dvb. da b = Some dab \<and> da v = Some dav \<and> dv b = Some dvb \<and> dav + dvb = dab)"
  by (auto simp: is_on_shortest_path_def split: option.splits)

lemma on_shortest_path_graph:
  assumes "compute_shortest_paths s a = Some da" "compute_shortest_paths s v = Some dv"
  shows "is_on_shortest_path a b v da dv \<longleftrightarrow>
     a \<noteq> b \<and> a \<noteq> v \<and> b \<noteq> v \<and>
     (a, b) \<in> (succ_rel (reverse_referrals s))\<^sup>* \<and>
     (a, v) \<in> (succ_rel (reverse_referrals s))\<^sup>* \<and>
     (v, b) \<in> (succ_rel (reverse_referrals s))\<^sup>* \<and>
     hops (succ_rel (reverse_referrals s)) a v + hops (succ_rel (reverse_referrals s)) v b
       = hops (succ_rel (reverse_referrals s)) a b"
  unfolding is_on_shortest_path_iff csp_shortest [OF assms(1)] csp_shortest [OF assms(2)]
  by auto

lemma score_of_init: "score_of (map (\<lambda>u. (u, 0)) us) v = 0"
  by (induction us) (auto simp: score_of_def)

lemma fc_scores_card:
  assumes d: "distinct us" and v: "v \<in> set us"
  shows "score_of (fc_outer us ad (enumerate 0 us) (enumerate 0 us) (map (\<lambda>u. (u, 0)) us)) v
       = card {(a, b). a \<in> set us \<and> b \<in> set us \<and> is_on_shortest_path a b v (ad a) (ad v)}"
proof -
  let ?E = "enumerate 0 us"
  let ?R = "\<lambda>a b. is_on_shortest_path a b v (ad a) (ad v)"
  have k: "v \<in> fst ` set (map (\<lambda>u. (u, 0::nat)) us)" using v by force
  have cell: "(if fst ia \<noteq> fst jb \<and> ad (snd ia) (snd jb) \<noteq> None
                 then on_path_count (snd ia) (snd jb) ad v us else 0)
            = (if ?R (snd ia) (snd jb) then 1 else 0)"
    if "ia \<in> set ?E" "jb \<in> set ?E" for ia jb
  proof -
    obtain i a j b where e: "ia = (i, a)" "jb = (j, b)" by (cases ia, cases jb)
    have ij: "i = j \<longleftrightarrow> a = b" using d that unfolding e by (rule enumerate_index_eq)
    have c: "on_path_count a b ad v us = (if v \<noteq> a \<and> v \<noteq> b \<and> ?R a b then 1 else 0)"
      unfolding on_path_count_def using filter_eq_distinct [OF d, of v "\<lambda>w. w \<noteq> a \<and> w \<noteq> b \<and> is_on_shortest_path a b w (ad a) (ad w)"] v
      by simp
    show ?thesis unfolding e using ij c by (auto simp: is_on_shortest_path_iff)
  qed
  have inner: "sum_list (map (\<lambda>jb. if fst ia \<noteq> fst jb \<and> ad (snd ia) (snd jb) \<noteq> None
                               then on_path_count (snd ia) (snd jb) ad v us else 0) ?E)
             = sum_list (map (\<lambda>b. if ?R (snd ia) b then 1 else 0) us)"
    if "ia \<in> set ?E" for ia
  proof -
    have "map (\<lambda>jb. if fst ia \<noteq> fst jb \<and> ad (snd ia) (snd jb) \<noteq> None
                               then on_path_count (snd ia) (snd jb) ad v us else 0) ?E
        = map (\<lambda>jb. (\<lambda>b. if ?R (snd ia) b then 1 else 0) (snd jb)) ?E"
      using cell [OF that] by (intro map_cong refl)
    then have "sum_list (map (\<lambda>jb. if fst ia \<noteq> fst jb \<and> ad (snd ia) (snd jb) \<noteq> None
                               then on_path_count (snd ia) (snd jb) ad v us else 0) ?E)
        = sum_list (map (\<lambda>jb. (\<lambda>b. if ?R (snd ia) b then 1 else 0) (snd jb)) ?E)"
      by (rule arg_cong)
    also have "\<dots> = sum_list (map (\<lambda>b. if ?R (snd ia) b then 1 else 0) us)"
      by (rule sum_list_enumerate_snd)
    finally show ?thesis .
  qed
  have "map (\<lambda>ia. sum_list (map (\<lambda>jb. if fst ia \<noteq> fst jb \<and> ad (snd ia) (snd jb) \<noteq> None
                               then on_path_count (snd ia) (snd jb) ad v us else 0) ?E)) ?E
      = map (\<lambda>ia. (\<lambda>a. sum_list (map (\<lambda>b. if ?R a b then 1 else 0) us)) (snd ia)) ?E"
    by (rule map_cong [OF refl]) (rule inner)
  then have "sum_list (map (\<lambda>ia. sum_list (map (\<lambda>jb. if fst ia \<noteq> fst jb \<and> ad (snd ia) (snd jb) \<noteq> None
                               then on_path_count (snd ia) (snd jb) ad v us else 0) ?E)) ?E)
      = sum_list (map (\<lambda>ia. (\<lambda>a. sum_list (map (\<lambda>b. if ?R a b then 1 else 0) us)) (snd ia)) ?E)"
    by (rule arg_cong)
  also have "\<dots> = sum_list (map (\<lambda>a. sum_list (map (\<lambda>b. if ?R a b then 1 else 0) us)) us)"
    by (rule sum_list_enumerate_snd)
  also have "\<dots> = card {(a, b). a \<in> set us \<and> b \<in> set us \<and> ?R a b}"
    using d by (rule double_sum_card)
  finally show ?thesis
    using fc_outer_score [OF k, of us ad ?E ?E] by (simp only: score_of_init add_0)
qed

lemma distinct_keys_sort_desc: "distinct (map fst xs) \<Longrightarrow> distinct (map fst (sort_desc xs))"
  by (simp add: distinct_map sort_desc_def)

lemma flow_centrality_result:
  assumes d: "distinct (users s)" and n: "3 \<le> length (users s)"
  shows "\<exists>sc. get_flow_centrality s = Some (sort_desc sc) \<and> map fst sc = users s \<and>
    (\<forall>v\<in>set (users s). score_of sc v = card (shortest_path_pairs s v))"
proof -
  let ?us = "users s"
  let ?g = "\<lambda>u. the (compute_shortest_paths s u)"
  let ?ad = "dict_get (zip ?us (map ?g ?us))"
  let ?sc = "fc_outer ?us ?ad (enumerate 0 ?us) (enumerate 0 ?us) (map (\<lambda>u. (u, 0)) ?us)"
  have th: "those (map (compute_shortest_paths s) ?us) = Some (map ?g ?us)"
    by (rule those_map_Some) (rule csp_total)
  have 1: "get_flow_centrality s = Some (sort_desc ?sc)"
    using n unfolding get_flow_centrality_def th by simp
  have 2: "map fst ?sc = ?us" by (simp add: comp_def)
  have ad: "?ad u = ?g u" if "u \<in> set ?us" for u using that by (rule dict_get_zip)
  have cs: "compute_shortest_paths s u = Some (?g u)" for u
    using csp_total [of s u] by auto
  have 3: "score_of ?sc v = card (shortest_path_pairs s v)" if v: "v \<in> set ?us" for v
  proof -
    have eq: "is_on_shortest_path a b v (?ad a) (?ad v) \<longleftrightarrow>
       a \<noteq> b \<and> a \<noteq> v \<and> b \<noteq> v \<and>
       (a, b) \<in> (succ_rel (reverse_referrals s))\<^sup>* \<and>
       (a, v) \<in> (succ_rel (reverse_referrals s))\<^sup>* \<and>
       (v, b) \<in> (succ_rel (reverse_referrals s))\<^sup>* \<and>
       hops (succ_rel (reverse_referrals s)) a v + hops (succ_rel (reverse_referrals s)) v b
         = hops (succ_rel (reverse_referrals s)) a b" if a: "a \<in> set ?us" for a b
      unfolding ad [OF a] ad [OF v] by (rule on_shortest_path_graph [OF cs cs])
    have "{(a, b). a \<in> set ?us \<and> b \<in> set ?us \<and> is_on_shortest_path a b v (?ad a) (?ad v)}
        = shortest_path_pairs s v"
      unfolding shortest_path_pairs_def using eq by blast
    with fc_scores_card [OF d v, of ?ad] show ?thesis by simp
  qed
  from 1 2 3 show ?thesis by blast
qed

text \<open>
  Claim C6.  On a store whose user set has fewer than three users \<open>get_flow_centrality\<close>
  returns the empty list.  Otherwise it returns (without a \<open>KeyError\<close>) one entry for
  every user, sorted by descending score, and the score of \<open>v\<close> is the number of ordered
  pairs \<open>(a, b)\<close> of users, different from each other and from \<open>v\<close>, with \<open>b\<close> reachable
  from \<open>a\<close>, \<open>v\<close> from \<open>a\<close> and \<open>b\<close> from \<open>v\<close>, whose shortest-path lengths satisfy
  \<open>d(a,v) + d(v,b) = d(a,b)\<close>.  On the chain A, B, C the score of B is 1 and the scores
  of A and C are 0.
\<close>

theorem flow_centrality_scores:
  assumes "distinct (users s)"
  shows "(length (users s) < 3 \<longrightarrow> get_flow_centrality s = Some [])
       \<and> (3 \<le> length (users s) \<longrightarrow>
            (\<exists>res. get_flow_centrality s = Some res
               \<and> distinct (map fst res) \<and> set (map fst res) = set (users s)
               \<and> sorted (map (\<lambda>x. - int (snd x)) res)
               \<and> (\<forall>(v, n) \<in> set res. n = card (shortest_path_pairs s v))))
       \<and> get_flow_centrality (run [(''A'', ''B''), (''B'', ''C'')])
             = Some [(''B'', 1), (''A'', 0), (''C'', 0)]"
proof (intro conjI impI)
  show "get_flow_centrality s = Some []" if "length (users s) < 3"
    using that by (simp add: get_flow_centrality_def)
  show "get_flow_centrality (run [(''A'', ''B''), (''B'', ''C'')]) = Some [(''B'', 1), (''A'', 0), (''C'', 0)]"
    by (rule chain3_centrality)
  show "\<exists>res. get_flow_centrality s = Some res
               \<and> distinct (map fst res) \<and> set (map fst res) = set (users s)
               \<and> sorted (map (\<lambda>x. - int (snd x)) res)
               \<and> (\<forall>(v, n) \<in> set res. n = card (shortest_path_pairs s v))"
    if n: "3 \<le> length (users s)"
  proof -
    obtain sc where sc: "get_flow_centrality s = Some (sort_desc sc)"
      "map fst sc = users s"
      "\<forall>v\<in>set (users s). score_of sc v = card (shortest_path_pairs s v)"
      using flow_centrality_result [OF assms n] by blast
    have dk: "distinct (map fst sc)" using assms sc(2) by simp
    have a: "distinct (map fst (sort_desc sc))" using dk by (rule distinct_keys_sort_desc)
    have b: "set (map fst (sort_desc sc)) = set (users s)"
      using sc(2) by (metis set_map set_sort_desc)
    have c: "sorted (map (\<lambda>x. - int (snd x)) (sort_desc sc))" by (rule sort_desc_sorted)
    have e: "n = card (shortest_path_pairs s v)" if "(v, n) \<in> set (sort_desc sc)" for v n
    proof -
      have m: "(v, n) \<in> set sc" using that by simp
      then have "map_of sc v = Some n" using dk by (intro map_of_is_SomeI)
      then have "score_of sc v = n" by (simp add: score_of_def)
      moreover have "v \<in> set (users s)" using m sc(2) by (metis fst_conv image_eqI set_map)
      ultimately show ?thesis using sc(3) by simp
    qed
    show ?thesis using sc(1) a b c e by (intro exI [of _ "sort_desc sc"]) auto
  qed
qed

text \<open>The chain A, B, C: the only pair counted for B is (A, C).\<close>

theorem flow_centrality_scores_witness:
  "distinct (users (run [(''A'', ''B''), (''B'', ''C'')]))
   \<and> length (users (run [(''A'', ''B''), (''B'', ''C'')])) = 3
   \<and> get_flow_centrality (run [(''A'', ''B''), (''B'', ''C'')]) = Some [(''B'', 1), (''A'', 0), (''C'', 0)]
   \<and> card (shortest_path_pairs (run [(''A'', ''B''), (''B'', ''C'')]) ''B'') = 1"
proof -
  let ?s = "run [(''A'', ''B''), (''B'', ''C'')]"
  have d: "distinct (users ?s)" and l: "length (users ?s) = 3" by (simp_all add: chain3_store)
  from flow_centrality_scores [OF d] l
  obtain res where r: "get_flow_centrality ?s = Some res"
    "\<forall>(v, n) \<in> set res. n = card (shortest_path_pairs ?s v)"
    and c: "get_flow_centrality ?s = Some [(''B'', 1), (''A'', 0), (''C'', 0)]"
    by auto
  from r(1) c have "res = [(''B'', 1), (''A'', 0), (''C'', 0)]" by simp
  with r(2) have "card (shortest_path_pairs ?s ''B'') = 1" by simp
  with d l c show ?thesis by simp
qed

section \<open>Floating-point addition (the arithmetic of simulation.py)\<close>

text \<open>
  A Python \<open>float\<close> is an IEEE 754 binary64 number.  The finite ones are real numbers, and
  the sum of two of them is the real sum rounded to the nearest representable number, ties
  to the even significand.  \<open>fexp x\<close> is the exponent of the last place of \<open>x\<close> (53
  significant bits, least exponent \<open>-1074\<close>), \<open>rnd_even\<close> rounds to the nearest integer,
  ties to even, \<open>rd\<close> rounds to the nearest representable number and \<open>fadd\<close> is the
  addition of two floats.  Overflow to infinity (a sum of \<open>2^1024\<close> or more) is not
  modelled; comparisons of floats with each other and with integers are exact, so they are
  the comparisons of the reals.
\<close>

definition rnd_even :: "real \<Rightarrow> int" where
  "rnd_even x =
     (let f = \<lfloor>x\<rfloor>; d = x - of_int f
      in if d < 1 / 2 then f else if 1 / 2 < d then f + 1 else if even f then f else f + 1)"

definition fexp :: "real \<Rightarrow> int" where
  "fexp x = max (\<lfloor>log 2 \<bar>x\<bar>\<rfloor> - 52) (- 1074)"

definition rd :: "real \<Rightarrow> real" where
  "rd x = (if x = 0 then 0
           else of_int (rnd_even (x / 2 powr of_int (fexp x))) * 2 powr of_int (fexp x))"

definition fadd :: "real \<Rightarrow> real \<Rightarrow> real" where
  "fadd x y = rd (x + y)"

lemma rnd_even_int [simp]: "rnd_even (of_int n) = n"
  by (simp add: rnd_even_def)

lemma rnd_even_bounds: "\<lfloor>x\<rfloor> \<le> rnd_even x" "rnd_even x \<le> \<lfloor>x\<rfloor> + 1"
  by (simp_all add: rnd_even_def Let_def)

lemma rnd_even_mono: "x \<le> y \<Longrightarrow> rnd_even x \<le> rnd_even y"
proof -
  assume xy: "x \<le> y"
  have fl: "\<lfloor>x\<rfloor> \<le> \<lfloor>y\<rfloor>" using xy by (rule floor_mono)
  show ?thesis
  proof (cases "\<lfloor>x\<rfloor> = \<lfloor>y\<rfloor>")
    case True
    then have "x - of_int \<lfloor>x\<rfloor> \<le> y - of_int \<lfloor>y\<rfloor>" using xy by simp
    with True show ?thesis by (auto simp: rnd_even_def Let_def)
  next
    case False
    with fl have "\<lfloor>x\<rfloor> + 1 \<le> \<lfloor>y\<rfloor>" by simp
    with rnd_even_bounds(2) [of x] rnd_even_bounds(1) [of y] show ?thesis by linarith
  qed
qed

lemma rnd_even_le: "x \<le> of_int n \<Longrightarrow> rnd_even x \<le> n"
  using rnd_even_mono [of x "of_int n"] by simp

lemma rnd_even_ge: "of_int n \<le> x \<Longrightarrow> n \<le> rnd_even x"
  using rnd_even_mono [of "of_int n" x] by simp

lemma fexp_upper: assumes "0 < x" shows "x < 2 powr of_int (fexp x + 53)"
proof -
  have "log 2 x < of_int (\<lfloor>log 2 x\<rfloor> + 1)" by linarith
  also have "\<dots> \<le> of_int (fexp x + 53)" using assms by (simp add: fexp_def)
  finally have "log 2 x < of_int (fexp x + 53)" .
  then show ?thesis using assms by (simp add: log_less_iff)
qed

lemma fexp_lower: assumes "0 < x" "- 1074 < fexp x" shows "2 powr of_int (fexp x + 52) \<le> x"
proof -
  have "fexp x = \<lfloor>log 2 x\<rfloor> - 52" using assms by (simp add: fexp_def max_def split: if_splits)
  then have "of_int (fexp x + 52) \<le> log 2 x" by simp
  then show ?thesis using assms(1) by (simp add: le_log_iff)
qed

lemma fexp_mono: assumes "0 < x" "x \<le> y" shows "fexp x \<le> fexp y"
proof -
  have "log 2 x \<le> log 2 y" using assms by simp
  then have "\<lfloor>log 2 x\<rfloor> \<le> \<lfloor>log 2 y\<rfloor>" by (rule floor_mono)
  then show ?thesis using assms by (simp add: fexp_def)
qed

lemma scaled_lt: assumes "0 < x" shows "x / 2 powr of_int (fexp x) < 2 ^ 53"
proof -
  have "x < 2 powr (of_int (fexp x) + 53)" using fexp_upper [OF assms] by simp
  also have "\<dots> = 2 powr of_int (fexp x) * 2 ^ 53" by (simp add: powr_add)
  finally show ?thesis by (simp add: divide_less_eq mult.commute)
qed

lemma scaled_ge: assumes "0 < x" "- 1074 < fexp x" shows "2 ^ 52 \<le> x / 2 powr of_int (fexp x)"
proof -
  have "2 powr (of_int (fexp x) + 52) \<le> x" using fexp_lower [OF assms] by simp
  moreover have "(2::real) powr (of_int (fexp x) + 52) = 2 powr of_int (fexp x) * 2 ^ 52" by (simp add: powr_add)
  ultimately show ?thesis by (simp add: le_divide_eq mult.commute)
qed

lemma rd_pos_le: assumes "0 < x" shows "rd x \<le> 2 ^ 53 * 2 powr of_int (fexp x)"
proof -
  have "x / 2 powr of_int (fexp x) \<le> of_int (2 ^ 53)" using scaled_lt [OF assms] by simp
  then have "rnd_even (x / 2 powr of_int (fexp x)) \<le> 2 ^ 53" by (rule rnd_even_le)
  then have "(of_int (rnd_even (x / 2 powr of_int (fexp x))) :: real) \<le> of_int (2 ^ 53)"
    by (simp only: of_int_le_iff)
  then have "(of_int (rnd_even (x / 2 powr of_int (fexp x))) :: real) \<le> 2 ^ 53" by simp
  then show ?thesis using assms by (simp add: rd_def mult_right_mono)
qed

lemma rd_pos_ge: assumes "0 < x" "- 1074 < fexp x" shows "2 ^ 52 * 2 powr of_int (fexp x) \<le> rd x"
proof -
  have "of_int (2 ^ 52) \<le> x / 2 powr of_int (fexp x)" using scaled_ge [OF assms] by simp
  then have "2 ^ 52 \<le> rnd_even (x / 2 powr of_int (fexp x))" by (rule rnd_even_ge)
  then have "(of_int (2 ^ 52) :: real) \<le> of_int (rnd_even (x / 2 powr of_int (fexp x)))"
    by (simp only: of_int_le_iff)
  then have "(2 ^ 52 :: real) \<le> of_int (rnd_even (x / 2 powr of_int (fexp x)))" by simp
  then show ?thesis using assms by (simp add: rd_def mult_right_mono)
qed

lemma rd_zero [simp]: "rd 0 = 0"
  by (simp add: rd_def)

lemma rd_nonneg: assumes "0 \<le> x" shows "0 \<le> rd x"
proof (cases "x = 0")
  case True
  then show ?thesis by simp
next
  case False
  with assms have "of_int 0 \<le> x / 2 powr of_int (fexp x)" by simp
  then have "0 \<le> rnd_even (x / 2 powr of_int (fexp x))" by (rule rnd_even_ge)
  with False show ?thesis by (simp add: rd_def)
qed

lemma rd_mono: assumes "0 \<le> x" "x \<le> y" shows "rd x \<le> rd y"
proof (cases "x = 0")
  case True
  then show ?thesis using assms rd_nonneg [of y] by simp
next
  case False
  with assms have x: "0 < x" and y: "0 < y" by simp_all
  have e: "fexp x \<le> fexp y" using x assms(2) by (rule fexp_mono)
  show ?thesis
  proof (cases "fexp x = fexp y")
    case True
    have "x / 2 powr of_int (fexp y) \<le> y / 2 powr of_int (fexp y)"
      using assms(2) by (simp add: divide_right_mono)
    then have "rnd_even (x / 2 powr of_int (fexp y)) \<le> rnd_even (y / 2 powr of_int (fexp y))"
      by (rule rnd_even_mono)
    then have "(of_int (rnd_even (x / 2 powr of_int (fexp y))) :: real)
        \<le> of_int (rnd_even (y / 2 powr of_int (fexp y)))" by (simp only: of_int_le_iff)
    then show ?thesis using x y True by (simp add: rd_def mult_right_mono)
  next
    case False
    with e have lt: "fexp x + 1 \<le> fexp y" by simp
    then have n: "- 1074 < fexp y" by (simp add: fexp_def)
    have "rd x \<le> 2 ^ 53 * 2 powr of_int (fexp x)" using x by (rule rd_pos_le)
    also have "\<dots> = 2 ^ 52 * 2 powr (of_int (fexp x) + 1)" by (simp add: powr_add)
    also have "\<dots> \<le> 2 ^ 52 * 2 powr of_int (fexp y)"
    proof -
      have "(of_int (fexp x) + 1 :: real) \<le> of_int (fexp y)" using lt by linarith
      then have "(2::real) powr (of_int (fexp x) + 1) \<le> 2 powr of_int (fexp y)" by simp
      then show ?thesis by simp
    qed
    also have "\<dots> \<le> rd y" using y n by (rule rd_pos_ge)
    finally show ?thesis .
  qed
qed

lemma rd_exact:
  assumes k: "0 \<le> k" "k < 2 ^ 53" and j: "- 1074 \<le> j"
  shows "rd (of_int k * 2 powr of_int j) = of_int k * 2 powr of_int j"
proof (cases "k = 0")
  case True
  then show ?thesis by simp
next
  case False
  define x :: real where "x = of_int k * 2 powr of_int j"
  define e where "e = fexp x"
  have kp: "0 < k" using False k by simp
  then have x: "0 < x" by (simp add: x_def)
  have "(of_int k :: real) < of_int (2 ^ 53)" using k(2) by (simp only: of_int_less_iff)
  then have "(of_int k :: real) < 2 ^ 53" by simp
  then have "x < 2 ^ 53 * 2 powr of_int j"
    unfolding x_def by (simp add: mult_strict_right_mono)
  also have "\<dots> = 2 powr (of_int j + 53)" by (simp add: powr_add)
  finally have "x < 2 powr (of_int j + 53)" .
  then have "log 2 x < of_int (j + 53)" using x by (simp add: log_less_iff)
  then have "\<lfloor>log 2 x\<rfloor> < j + 53" by (simp only: floor_less_iff)
  then have ej: "e \<le> j" using j x by (simp add: e_def fexp_def)
  define n where "n = nat (j - e)"
  have "(2::real) powr of_int j / 2 powr of_int e = 2 powr of_int (j - e)"
    by (simp add: powr_diff)
  also have "\<dots> = 2 ^ n" using ej powr_real_of_int [of 2 "j - e"] by (simp add: n_def)
  finally have q: "(2::real) powr of_int j / 2 powr of_int e = 2 ^ n" .
  have "x / 2 powr of_int e = of_int k * (2 powr of_int j / 2 powr of_int e)"
    by (simp add: x_def)
  also have "\<dots> = of_int (k * 2 ^ n)" by (simp add: q)
  finally have sc: "x / 2 powr of_int e = of_int (k * 2 ^ n)" .
  have re: "rnd_even (x / 2 powr of_int e) = k * 2 ^ n" unfolding sc by (rule rnd_even_int)
  have "rd x = of_int (rnd_even (x / 2 powr of_int e)) * 2 powr of_int e"
    using x unfolding rd_def e_def [symmetric] by simp
  then have "rd x = of_int (k * 2 ^ n) * 2 powr of_int e" by (simp only: re)
  also have "\<dots> = of_int k * (2 ^ n * 2 powr of_int e)" by simp
  also have "2 ^ n * 2 powr of_int e = (2::real) powr of_int j"
    using q by (simp add: field_simps)
  finally show ?thesis by (simp add: x_def)
qed

lemma rd_of_int: "0 \<le> n \<Longrightarrow> n < 2 ^ 53 \<Longrightarrow> rd (of_int n) = of_int n"
  using rd_exact [of n 0] by simp

lemma rd_idem: assumes "0 \<le> x" shows "rd (rd x) = rd x"
proof (cases "x = 0")
  case True
  then show ?thesis by simp
next
  case False
  with assms have x: "0 < x" by simp
  define m where "m = rnd_even (x / 2 powr of_int (fexp x))"
  have r: "rd x = of_int m * 2 powr of_int (fexp x)" using False by (simp add: rd_def m_def)
  have m0: "0 \<le> m"
  proof -
    have "of_int 0 \<le> x / 2 powr of_int (fexp x)" using x by simp
    then show ?thesis unfolding m_def by (rule rnd_even_ge)
  qed
  have m1: "m \<le> 2 ^ 53"
  proof -
    have "x / 2 powr of_int (fexp x) \<le> of_int (2 ^ 53)" using scaled_lt [OF x] by simp
    then show ?thesis unfolding m_def by (rule rnd_even_le)
  qed
  have e: "- 1074 \<le> fexp x" by (simp add: fexp_def)
  show ?thesis
  proof (cases "m = 2 ^ 53")
    case False
    with m1 have "m < 2 ^ 53" by simp
    from rd_exact [OF m0 this e] show ?thesis by (simp add: r)
  next
    case True
    have "rd x = of_int (2 ^ 52) * 2 powr of_int (fexp x + 1)"
      by (simp add: r True powr_add)
    moreover have "rd (of_int (2 ^ 52) * 2 powr of_int (fexp x + 1)) = of_int (2 ^ 52) * 2 powr of_int (fexp x + 1)"
      using e by (intro rd_exact) simp_all
    ultimately show ?thesis by simp
  qed
qed

section \<open>Growth simulation and bonus search (simulation.py)\<close>

text \<open>
  The \<open>ValueError\<close>s of the module, told apart by their message: the probability is
  outside \<open>[0, 1]\<close>, the number of days is negative, the tolerance is not positive, the
  adoption function returned a value outside \<open>[0, 1]\<close>, the argument passed as adoption
  function is not callable.
\<close>

datatype sim_error =
  InvalidProbability | InvalidDuration | InvalidTolerance | InvalidProbabilityFunction | NotCallable

text \<open>
  A \<open>NetworkSimulator\<close> holds its random generator and the two constants its constructor
  sets.  The generator is the sequence of values that \<open>random()\<close> is going to return and
  the number of values already taken; the seed chooses the sequence.
\<close>

record simulator =
  random_generator :: "nat \<Rightarrow> real"
  random_pos :: nat
  initial_active_referrers :: nat
  max_referrals_per_referrer :: int

definition new_simulator :: "(nat \<Rightarrow> real) \<Rightarrow> simulator" where
  "new_simulator draws =
     \<lparr>random_generator = draws, random_pos = 0,
      initial_active_referrers = 100, max_referrals_per_referrer = 10\<rparr>"

text \<open>
  \<open>referrer_counts\<close> is a dictionary from slot id to count, in insertion order.
  \<open>deactivate\<close> is the loop that deletes the slots collected in
  \<open>referrers_to_deactivate\<close>.
\<close>

type_synonym 'v slots = "(nat \<times> 'v) list"

fun deactivate :: "nat list \<Rightarrow> 'v slots \<Rightarrow> 'v slots" where
  "deactivate [] referrer_counts = referrer_counts"
| "deactivate (referrer_id # rest) referrer_counts =
     deactivate rest
       (if map_of referrer_counts referrer_id \<noteq> None then AList.delete referrer_id referrer_counts
        else referrer_counts)"

text \<open>
  \<open>simulate\<close>.  The loop over the slots walks a snapshot of the keys and subscripts the
  dictionary with each of them; the only entry it changes is the one it is at, so the walk is
  over the entries of the dictionary as they were when the day began.  Each trial takes the
  next value of the generator.
\<close>

fun sim_referrers ::
    "(nat \<Rightarrow> real) \<Rightarrow> int \<Rightarrow> real \<Rightarrow> int slots \<Rightarrow> int slots \<times> nat \<times> int \<times> nat list
       \<Rightarrow> int slots \<times> nat \<times> int \<times> nat list" where
  "sim_referrers g cap p [] st = st"
| "sim_referrers g cap p ((referrer_id, cnt) # rest) (referrer_counts, pos, daily_referrals, to_deactivate) =
     (if cap \<le> cnt
      then sim_referrers g cap p rest (referrer_counts, pos, daily_referrals, to_deactivate @ [referrer_id])
      else if g pos < p
      then sim_referrers g cap p rest
             (AList.update referrer_id (cnt + 1) referrer_counts, pos + 1, daily_referrals + 1,
              if cap \<le> cnt + 1 then to_deactivate @ [referrer_id] else to_deactivate)
      else sim_referrers g cap p rest (referrer_counts, pos + 1, daily_referrals, to_deactivate))"

fun sim_days ::
    "(nat \<Rightarrow> real) \<Rightarrow> int \<Rightarrow> real \<Rightarrow> nat \<Rightarrow> int slots \<times> nat \<times> int \<times> int list
       \<Rightarrow> int list \<times> nat" where
  "sim_days g cap p 0 (referrer_counts, pos, current_total, cumulative) = (cumulative, pos)"
| "sim_days g cap p (Suc n) (referrer_counts, pos, current_total, cumulative) =
     (case sim_referrers g cap p referrer_counts (referrer_counts, pos, 0, []) of
        (counts1, pos1, daily_referrals, to_deactivate) \<Rightarrow>
          sim_days g cap p n
            (deactivate to_deactivate counts1, pos1, current_total + daily_referrals,
             cumulative @ [current_total + daily_referrals]))"

definition simulate :: "simulator \<Rightarrow> real \<Rightarrow> int \<Rightarrow> (sim_error + int list) \<times> simulator" where
  "simulate sim p days =
     (if \<not> (0 \<le> p \<and> p \<le> 1) then (Inl InvalidProbability, sim)
      else if days < 0 then (Inl InvalidDuration, sim)
      else if days = 0 then (Inr [], sim)
      else case sim_days (random_generator sim) (max_referrals_per_referrer sim) p (nat days)
                  (map (\<lambda>i. (i, 0)) [0..<initial_active_referrers sim], random_pos sim, 0, []) of
             (cumulative, pos) \<Rightarrow> (Inr cumulative, sim\<lparr>random_pos := pos\<rparr>))"

text \<open>
  \<open>simulate_expected\<close>.  The loop over the slots walks \<open>range(active_referrers)\<close> and
  skips the ids that are not in the dictionary; the sums are float additions, in the order
  the code performs them.
\<close>

fun se_referrers ::
    "int \<Rightarrow> real \<Rightarrow> nat list \<Rightarrow> real slots \<times> real \<times> nat list \<Rightarrow> real slots \<times> real \<times> nat list" where
  "se_referrers cap p [] st = st"
| "se_referrers cap p (referrer_id # rest) (referrer_counts, daily_referrals, to_deactivate) =
     (case map_of referrer_counts referrer_id of
        None \<Rightarrow> se_referrers cap p rest (referrer_counts, daily_referrals, to_deactivate)
      | Some cnt \<Rightarrow>
          if of_int cap \<le> cnt
          then se_referrers cap p rest (referrer_counts, daily_referrals, to_deactivate @ [referrer_id])
          else se_referrers cap p rest
                 (AList.update referrer_id (fadd cnt p) referrer_counts, fadd daily_referrals p,
                  if of_int cap \<le> fadd cnt p then to_deactivate @ [referrer_id] else to_deactivate))"

fun se_days :: "int \<Rightarrow> real \<Rightarrow> nat \<Rightarrow> real slots \<times> nat \<times> real \<times> real list \<Rightarrow> real list" where
  "se_days cap p 0 (referrer_counts, active_referrers, current_total, cumulative) = cumulative"
| "se_days cap p (Suc n) (referrer_counts, active_referrers, current_total, cumulative) =
     (case se_referrers cap p [0..<active_referrers] (referrer_counts, 0, []) of
        (counts1, daily_referrals, to_deactivate) \<Rightarrow>
          se_days cap p n
            (deactivate to_deactivate counts1, length (deactivate to_deactivate counts1),
             fadd current_total daily_referrals, cumulative @ [fadd current_total daily_referrals]))"

definition simulate_expected :: "simulator \<Rightarrow> real \<Rightarrow> int \<Rightarrow> sim_error + real list" where
  "simulate_expected sim p days =
     (if \<not> (0 \<le> p \<and> p \<le> 1) then Inl InvalidProbability
      else if days < 0 then Inl InvalidDuration
      else if days = 0 then Inr []
      else Inr (se_days (max_referrals_per_referrer sim) p (nat days)
                  (map (\<lambda>i. (i, 0)) [0..<initial_active_referrers sim],
                   initial_active_referrers sim, 0, [])))"

text \<open>
  \<open>days_to_target\<close>: the \<open>while left < right\<close> loop and the check after it.  An error
  of \<open>simulate_expected\<close> leaves the function.
\<close>

function dtt_loop :: "simulator \<Rightarrow> real \<Rightarrow> int \<Rightarrow> int \<Rightarrow> int \<Rightarrow> sim_error + int" where
  "dtt_loop sim p target_total left right =
     (if left < right
      then case simulate_expected sim p ((left + right) div 2) of
             Inl e \<Rightarrow> Inl e
           | Inr simulation_result \<Rightarrow>
               if simulation_result = [] then dtt_loop sim p target_total ((left + right) div 2 + 1) right
               else if of_int target_total \<le> last simulation_result
               then dtt_loop sim p target_total left ((left + right) div 2)
               else dtt_loop sim p target_total ((left + right) div 2 + 1) right
      else Inr left)"
  by pat_completeness auto
termination
  by (relation "measure (\<lambda>(sim, p, t, left, right). nat (right - left))") auto

definition days_to_target :: "simulator \<Rightarrow> real \<Rightarrow> int \<Rightarrow> sim_error + int option" where
  "days_to_target sim p target_total =
     (if target_total \<le> 0 then Inr (Some 0)
      else if p \<le> 0 then Inr None
      else case dtt_loop sim p target_total 0 1000 of
             Inl e \<Rightarrow> Inl e
           | Inr left \<Rightarrow>
               if left \<le> 1000
               then case simulate_expected sim p left of
                      Inl e \<Rightarrow> Inl e
                    | Inr final_simulation \<Rightarrow>
                        if final_simulation \<noteq> [] \<and> of_int target_total \<le> last final_simulation
                        then Inr (Some left) else Inr None
               else Inr None)"

text \<open>
  \<open>ReferralBonusOptimizer.min_bonus_for_target\<close>.  The argument \<open>adoption_prob\<close> is
  either a value that \<open>callable\<close> rejects (a number, say) or a callable, which is a function
  from the bonus to a number; for such a function the test call returns a number, so the
  \<open>isinstance\<close> check passes and the \<open>except\<close> branch is not entered.  The search loop
  runs only after the \<open>callable\<close> guard, on the function.  The simulator the method
  creates is \<open>new_simulator draws\<close>.
\<close>

datatype adoption_arg = NonCallable | Callable "int \<Rightarrow> real"

record optimizer =
  min_bonus :: int
  max_bonus :: int

definition new_optimizer :: optimizer where
  "new_optimizer = \<lparr>min_bonus = 10, max_bonus = 10000\<rparr>"

function mb_loop :: "simulator \<Rightarrow> int \<Rightarrow> int \<Rightarrow> (int \<Rightarrow> real) \<Rightarrow> int \<Rightarrow> int \<Rightarrow> sim_error + int" where
  "mb_loop sim days target_hires adoption_prob left right =
     (if left < right
      then let mid = ((left + right) div 2) div 10 * 10 in
           if \<not> (0 \<le> adoption_prob mid \<and> adoption_prob mid \<le> 1) then Inl InvalidProbabilityFunction
           else case simulate_expected sim (adoption_prob mid) days of
                  Inl e \<Rightarrow> Inl e
                | Inr simulation_result \<Rightarrow>
                    if simulation_result = [] then mb_loop sim days target_hires adoption_prob (mid + 10) right
                    else if of_int target_hires \<le> last simulation_result
                    then mb_loop sim days target_hires adoption_prob left mid
                    else mb_loop sim days target_hires adoption_prob (mid + 10) right
      else Inr left)"
  by pat_completeness auto
termination
  by (relation "measure (\<lambda>(sim, days, t, ap, left, right). nat (right - left))") auto

definition min_bonus_for_target ::
    "optimizer \<Rightarrow> (nat \<Rightarrow> real) \<Rightarrow> int \<Rightarrow> int \<Rightarrow> adoption_arg \<Rightarrow> real \<Rightarrow> sim_error + int option" where
  "min_bonus_for_target opt draws days target_hires adoption_prob eps =
     (if days \<le> 0 \<or> target_hires \<le> 0 then Inr None
      else case adoption_prob of
        NonCallable \<Rightarrow> Inl NotCallable
      | Callable f \<Rightarrow>
      if eps \<le> 0 then Inl InvalidTolerance
      else if \<not> (0 \<le> f 0 \<and> f 0 \<le> 1) then Inl InvalidProbabilityFunction
      else if \<not> (0 \<le> f (max_bonus opt) \<and> f (max_bonus opt) \<le> 1)
           then Inl InvalidProbabilityFunction
      else case simulate_expected (new_simulator draws) (f (max_bonus opt)) days of
        Inl e \<Rightarrow> Inl e
      | Inr max_bonus_simulation \<Rightarrow>
          if max_bonus_simulation = [] \<or> last max_bonus_simulation < of_int target_hires then Inr None
          else case mb_loop (new_simulator draws) days target_hires f 0 (max_bonus opt) of
            Inl e \<Rightarrow> Inl e
          | Inr left \<Rightarrow>
              if left \<le> max_bonus opt
              then if \<not> (0 \<le> f left \<and> f left \<le> 1)
                   then Inl InvalidProbabilityFunction
                   else case simulate_expected (new_simulator draws) (f left) days of
                          Inl e \<Rightarrow> Inl e
                        | Inr final_simulation \<Rightarrow>
                            if final_simulation \<noteq> [] \<and> of_int target_hires \<le> last final_simulation
                            then Inr (Some left) else Inr None
              else Inr None)"

subsection \<open>Cumulative totals never decrease\<close>

declare dtt_loop.simps [simp del] mb_loop.simps [simp del]

lemma fadd_nonneg: "0 \<le> x \<Longrightarrow> 0 \<le> y \<Longrightarrow> 0 \<le> fadd x y"
  by (simp add: fadd_def rd_nonneg)

lemma fadd_representable: "0 \<le> x \<Longrightarrow> 0 \<le> y \<Longrightarrow> rd (fadd x y) = fadd x y"
  by (simp add: fadd_def rd_idem)

lemma fadd_ge: assumes "0 \<le> x" "rd x = x" "0 \<le> y" shows "x \<le> fadd x y"
proof -
  have "rd x \<le> rd (x + y)" using assms by (intro rd_mono) simp_all
  then show ?thesis using assms(2) by (simp add: fadd_def)
qed

lemma se_referrers_daily:
  "0 \<le> p \<Longrightarrow> 0 \<le> daily \<Longrightarrow> 0 \<le> fst (snd (se_referrers cap p ids (counts, daily, deact)))"
proof (induction ids arbitrary: counts daily deact)
  case Nil
  then show ?case by simp
next
  case (Cons rid ids)
  show ?case
  proof (cases "map_of counts rid")
    case None
    then show ?thesis using Cons.IH [OF Cons.prems] by simp
  next
    case (Some cnt)
    have "0 \<le> fadd daily p" using Cons.prems by (simp add: fadd_nonneg)
    from Cons.IH [OF Cons.prems(1) this] Cons.IH [OF Cons.prems] Some show ?thesis by simp
  qed
qed

lemma se_days_sorted:
  assumes "0 \<le> p"
  shows "0 \<le> tot \<Longrightarrow> rd tot = tot \<Longrightarrow> sorted acc \<Longrightarrow> \<forall>x\<in>set acc. x \<le> tot \<Longrightarrow>
         sorted (se_days cap p n (counts, active, tot, acc))"
proof (induction n arbitrary: counts active tot acc)
  case 0
  then show ?case by simp
next
  case (Suc n)
  obtain counts1 daily deact where r: "se_referrers cap p [0..<active] (counts, 0, []) = (counts1, daily, deact)"
    by (cases "se_referrers cap p [0..<active] (counts, 0, [])")
  have d: "0 \<le> daily" using se_referrers_daily [OF assms, of 0 cap "[0..<active]" counts "[]"] r by simp
  let ?t = "fadd tot daily"
  have 1: "0 \<le> ?t" using Suc.prems(1) d by (rule fadd_nonneg)
  have 2: "rd ?t = ?t" using Suc.prems(1) d by (rule fadd_representable)
  have ge: "tot \<le> ?t" using Suc.prems(1,2) d by (rule fadd_ge)
  have 3: "sorted (acc @ [?t])" using Suc.prems(3,4) ge by (auto simp: sorted_append)
  have 4: "\<forall>x\<in>set (acc @ [?t]). x \<le> ?t" using Suc.prems(4) ge by auto
  from Suc.IH [OF 1 2 3 4] r show ?case by simp
qed

lemma se_days_length:
  "length (se_days cap p n (counts, active, tot, acc)) = length acc + n"
proof (induction n arbitrary: counts active tot acc)
  case 0
  then show ?case by simp
next
  case (Suc n)
  obtain counts1 daily deact where r: "se_referrers cap p [0..<active] (counts, 0, []) = (counts1, daily, deact)"
    by (cases "se_referrers cap p [0..<active] (counts, 0, [])")
  show ?case using r Suc.IH by simp
qed

lemma se_days_acc_prefix:
  "\<exists>ys. se_days cap p m (counts, active, tot, acc) = acc @ ys"
proof (induction m arbitrary: counts active tot acc)
  case 0
  then show ?case by simp
next
  case (Suc m)
  obtain counts1 daily deact where r: "se_referrers cap p [0..<active] (counts, 0, []) = (counts1, daily, deact)"
    by (cases "se_referrers cap p [0..<active] (counts, 0, [])")
  from Suc.IH [of "deactivate deact counts1" "length (deactivate deact counts1)" "fadd tot daily" "acc @ [fadd tot daily]"]
  obtain ys where "se_days cap p m (deactivate deact counts1, length (deactivate deact counts1), fadd tot daily, acc @ [fadd tot daily]) = (acc @ [fadd tot daily]) @ ys"
    by blast
  then show ?case using r by simp
qed

lemma se_days_prefix:
  "\<exists>ys. se_days cap p (n + m) st = se_days cap p n st @ ys"
proof (induction n arbitrary: st)
  case 0
  obtain counts active tot acc where st: "st = (counts, active, tot, acc)" by (cases st)
  show ?case using se_days_acc_prefix [of cap p m counts active tot acc] by (simp add: st)
next
  case (Suc n)
  obtain counts active tot acc where st: "st = (counts, active, tot, acc)" by (cases st)
  obtain counts1 daily deact where r: "se_referrers cap p [0..<active] (counts, 0, []) = (counts1, daily, deact)"
    by (cases "se_referrers cap p [0..<active] (counts, 0, [])")
  show ?case using Suc.IH r by (simp add: st)
qed

text \<open>
  \<open>meets_target sim p target d\<close>: \<open>simulate_expected(p, d)\<close> returns a non-empty
  sequence whose final value is at least \<open>target\<close>.
\<close>

definition meets_target :: "simulator \<Rightarrow> real \<Rightarrow> int \<Rightarrow> int \<Rightarrow> bool" where
  "meets_target sim p target d =
     (case simulate_expected sim p d of Inl e \<Rightarrow> False | Inr xs \<Rightarrow> xs \<noteq> [] \<and> of_int target \<le> last xs)"

lemma sim_referrers_daily:
  "0 \<le> daily \<Longrightarrow> 0 \<le> fst (snd (snd (sim_referrers g cap p items (counts, pos, daily, deact))))"
proof (induction items arbitrary: counts pos daily deact)
  case Nil
  then show ?case by simp
next
  case (Cons it items)
  obtain rid cnt where it: "it = (rid, cnt)" by (cases it)
  have "0 \<le> daily + 1" using Cons.prems by simp
  from Cons.IH [OF this] Cons.IH [OF Cons.prems] show ?case by (simp add: it)
qed

lemma sim_days_sorted:
  "sorted acc \<Longrightarrow> \<forall>x\<in>set acc. x \<le> tot \<Longrightarrow>
     sorted (fst (sim_days g cap p n (counts, pos, tot, acc)))"
proof (induction n arbitrary: counts pos tot acc)
  case 0
  then show ?case by simp
next
  case (Suc n)
  obtain counts1 pos1 daily deact where
    r: "sim_referrers g cap p counts (counts, pos, 0, []) = (counts1, pos1, daily, deact)"
    by (cases "sim_referrers g cap p counts (counts, pos, 0, [])")
  have d: "0 \<le> daily" using sim_referrers_daily [of 0 g cap p counts counts pos "[]"] r by simp
  have 3: "sorted (acc @ [tot + daily])" using Suc.prems d by (auto simp: sorted_append)
  have 4: "\<forall>x\<in>set (acc @ [tot + daily]). x \<le> tot + daily" using Suc.prems(2) d by auto
  from Suc.IH [OF 3 4] r show ?case by simp
qed

lemma sim_days_length:
  "length (fst (sim_days g cap p n (counts, pos, tot, acc))) = length acc + n"
proof (induction n arbitrary: counts pos tot acc)
  case 0
  then show ?case by simp
next
  case (Suc n)
  obtain counts1 pos1 daily deact where
    r: "sim_referrers g cap p counts (counts, pos, 0, []) = (counts1, pos1, daily, deact)"
    by (cases "sim_referrers g cap p counts (counts, pos, 0, [])")
  show ?case using r Suc.IH by simp
qed

lemma simulate_expected_ok:
  assumes "0 \<le> p" "p \<le> 1" "0 \<le> days"
  shows "simulate_expected sim p days =
           Inr (se_days (max_referrals_per_referrer sim) p (nat days)
                  (map (\<lambda>i. (i, 0)) [0..<initial_active_referrers sim],
                   initial_active_referrers sim, 0, []))"
  using assms by (auto simp: simulate_expected_def)

lemma simulate_expected_sorted:
  assumes "0 \<le> p" "p \<le> 1" "0 \<le> days"
  obtains xs where "simulate_expected sim p days = Inr xs" "sorted xs" "length xs = nat days"
proof -
  let ?xs = "se_days (max_referrals_per_referrer sim) p (nat days)
                  (map (\<lambda>i. (i, 0)) [0..<initial_active_referrers sim],
                   initial_active_referrers sim, 0, [])"
  have "sorted ?xs" using assms(1) by (rule se_days_sorted) simp_all
  moreover have "length ?xs = nat days" by (simp add: se_days_length)
  ultimately show ?thesis using simulate_expected_ok [OF assms] that by blast
qed

lemma simulate_sorted:
  assumes "0 \<le> p" "p \<le> 1" "0 \<le> days"
  obtains ys where "fst (simulate sim p days) = Inr ys" "sorted ys" "length ys = nat days"
proof (cases "days = 0")
  case True
  then have "fst (simulate sim p days) = Inr []" using assms by (simp add: simulate_def)
  then show ?thesis using True that by simp
next
  case False
  let ?r = "sim_days (random_generator sim) (max_referrals_per_referrer sim) p (nat days)
                  (map (\<lambda>i. (i, 0)) [0..<initial_active_referrers sim], random_pos sim, 0, [])"
  have "fst (simulate sim p days) = Inr (fst ?r)"
    using assms False by (simp add: simulate_def split: prod.splits)
  moreover have "sorted (fst ?r)" by (rule sim_days_sorted) simp_all
  moreover have "length (fst ?r) = nat days" by (simp add: sim_days_length)
  ultimately show ?thesis using that by blast
qed

lemma sorted_prefix_last:
  fixes xs :: "real list"
  assumes "sorted (xs @ ys)" "xs \<noteq> []" shows "last xs \<le> last (xs @ ys)"
proof (cases "ys = []")
  case True
  then show ?thesis by simp
next
  case False
  then have "last (xs @ ys) = last ys" by simp
  moreover have "last xs \<in> set xs" "last ys \<in> set ys" using assms(2) False by simp_all
  ultimately show ?thesis using assms(1) by (simp add: sorted_append)
qed

lemma simulate_expected_final_mono:
  assumes p: "0 \<le> p" "p \<le> 1" and d: "1 \<le> d" "d \<le> d'"
  obtains xs ys where "simulate_expected sim p d = Inr xs" "simulate_expected sim p d' = Inr ys"
    "xs \<noteq> []" "ys \<noteq> []" "last xs \<le> last ys"
proof -
  let ?st = "(map (\<lambda>i. (i, 0::real)) [0..<initial_active_referrers sim],
                   initial_active_referrers sim, 0::real, [] :: real list)"
  let ?cap = "max_referrals_per_referrer sim"
  let ?xs = "se_days ?cap p (nat d) ?st" and ?ys = "se_days ?cap p (nat d') ?st"
  have x: "simulate_expected sim p d = Inr ?xs" using p d by (intro simulate_expected_ok) simp_all
  have y: "simulate_expected sim p d' = Inr ?ys" using p d by (intro simulate_expected_ok) simp_all
  have "nat d' = nat d + (nat d' - nat d)" using d by simp
  then obtain zs where zs: "?ys = ?xs @ zs" using se_days_prefix [of ?cap p "nat d" "nat d' - nat d" ?st] by auto
  have s: "sorted ?ys" using p(1) by (rule se_days_sorted) simp_all
  have lx: "length ?xs = nat d" by (simp add: se_days_length)
  then have nx: "?xs \<noteq> []" using d(1) by auto
  then have ny: "?ys \<noteq> []" using zs by simp
  have "last ?xs \<le> last (?xs @ zs)" using s nx unfolding zs by (rule sorted_prefix_last)
  then have "last ?xs \<le> last ?ys" using zs by simp
  with x y nx ny show ?thesis using that by blast
qed

lemma meets_target_mono:
  assumes "0 \<le> p" "p \<le> 1" "meets_target sim p t d" "d \<le> d'"
  shows "meets_target sim p t d'"
proof -
  have d1: "1 \<le> d"
  proof (rule ccontr)
    assume "\<not> 1 \<le> d"
    then have "d < 0 \<or> d = 0" by linarith
    then show False using assms(1-3) by (auto simp: meets_target_def simulate_expected_def)
  qed
  from assms(1,2) d1 assms(4) obtain xs ys where
    "simulate_expected sim p d = Inr xs" "simulate_expected sim p d' = Inr ys"
    "xs \<noteq> []" "ys \<noteq> []" "last xs \<le> last ys"
    by (rule simulate_expected_final_mono)
  with assms(3) show ?thesis by (auto simp: meets_target_def)
qed

subsection \<open>The two binary searches\<close>

lemma not_meets_nonpos: "d \<le> 0 \<Longrightarrow> \<not> meets_target sim p t d"
  by (auto simp: meets_target_def simulate_expected_def)

lemma dtt_loop_spec:
  "0 \<le> p \<Longrightarrow> p \<le> 1 \<Longrightarrow> 0 \<le> left \<Longrightarrow> left \<le> right \<Longrightarrow>
     \<forall>d. d < left \<longrightarrow> \<not> meets_target sim p t d \<Longrightarrow>
     right = R \<or> meets_target sim p t right \<Longrightarrow>
     \<exists>l. dtt_loop sim p t left right = Inr l \<and> left \<le> l \<and> l \<le> right \<and>
         (\<forall>d. d < l \<longrightarrow> \<not> meets_target sim p t d) \<and> (l = R \<or> meets_target sim p t l)"
proof (induction sim p t left right rule: dtt_loop.induct)
  case (1 sim p t left right)
  note p = "1.prems"(1,2)
  show ?case
  proof (cases "left < right")
    case False
    with "1.prems" have "left = right" by simp
    with "1.prems" show ?thesis by (simp add: dtt_loop.simps [of sim p t right right])
  next
    case True
    define mid where "mid = (left + right) div 2"
    have m: "left \<le> mid" "mid < right" using True by (simp_all add: mid_def)
    have m0: "0 \<le> mid" using m "1.prems"(3) by simp
    obtain xs where xs: "simulate_expected sim p mid = Inr xs"
      using simulate_expected_ok [OF p m0] by blast
    have below: "\<forall>d. d < mid + 1 \<longrightarrow> \<not> meets_target sim p t d" if nm: "\<not> meets_target sim p t mid"
    proof (intro allI impI)
      fix d assume "d < mid + 1"
      then have "d \<le> mid" by simp
      then show "\<not> meets_target sim p t d" using meets_target_mono [OF p, of sim t d mid] nm by blast
    qed
    show ?thesis
    proof (cases "xs \<noteq> [] \<and> of_int t \<le> last xs")
      case ok: True
      then have mt: "meets_target sim p t mid" by (simp add: meets_target_def xs)
      have e: "dtt_loop sim p t left right = dtt_loop sim p t left mid"
        using True ok xs by (simp add: dtt_loop.simps [of sim p t left right] mid_def)
      have "\<exists>l. dtt_loop sim p t left mid = Inr l \<and> left \<le> l \<and> l \<le> mid \<and>
         (\<forall>d. d < l \<longrightarrow> \<not> meets_target sim p t d) \<and> (l = R \<or> meets_target sim p t l)"
        using ok True xs "1.prems"(3,5) m(1) mt p
        by (intro "1.IH"(2) [unfolded mid_def [symmetric]]) auto
      then show ?thesis using m by (auto simp: e)
    next
      case no: False
      then have nm: "\<not> meets_target sim p t mid" by (simp add: meets_target_def xs)
      have e: "dtt_loop sim p t left right = dtt_loop sim p t (mid + 1) right"
        using True no xs by (auto simp: dtt_loop.simps [of sim p t left right] mid_def)
      have "\<exists>l. dtt_loop sim p t (mid + 1) right = Inr l \<and> mid + 1 \<le> l \<and> l \<le> right \<and>
         (\<forall>d. d < l \<longrightarrow> \<not> meets_target sim p t d) \<and> (l = R \<or> meets_target sim p t l)"
      proof (cases "xs = []")
        case e0: True
        show ?thesis
          using True xs e0 m m0 below [OF nm] "1.prems"(6) p
          by (intro "1.IH"(1) [unfolded mid_def [symmetric]]) auto
      next
        case ne: False
        with no have lt: "\<not> of_int t \<le> last xs" by simp
        show ?thesis
          using True xs ne lt m m0 below [OF nm] "1.prems"(6) p
          by (intro "1.IH"(3) [unfolded mid_def [symmetric]]) auto
      qed
      then show ?thesis using m by (auto simp: e)
    qed
  qed
qed

text \<open>
  What \<open>days_to_target\<close> returns, case by case.
\<close>

lemma days_to_target_cases:
  "(target \<le> 0 \<longrightarrow> days_to_target sim p target = Inr (Some 0))
   \<and> (0 < target \<and> p \<le> 0 \<longrightarrow> days_to_target sim p target = Inr None)
   \<and> (0 < target \<and> 1 < p \<longrightarrow> days_to_target sim p target = Inl InvalidProbability)
   \<and> (0 < target \<and> 0 < p \<and> p \<le> 1 \<longrightarrow>
        (\<exists>d. days_to_target sim p target = Inr (Some d) \<and> 1 \<le> d \<and> d \<le> 1000
              \<and> meets_target sim p target d
              \<and> (\<forall>d'. d' < d \<longrightarrow> \<not> meets_target sim p target d'))
        \<or> (days_to_target sim p target = Inr None
              \<and> (\<forall>d. d \<le> 1000 \<longrightarrow> \<not> meets_target sim p target d)))"
proof (intro conjI impI)
  show "days_to_target sim p target = Inr (Some 0)" if "target \<le> 0"
    using that by (simp add: days_to_target_def)
  show "days_to_target sim p target = Inr None" if "0 < target \<and> p \<le> 0"
    using that by (simp add: days_to_target_def)
  show "days_to_target sim p target = Inl InvalidProbability" if h: "0 < target \<and> 1 < p"
  proof -
    have "simulate_expected sim p ((0 + 1000) div 2) = Inl InvalidProbability"
      using h by (simp add: simulate_expected_def)
    then have "dtt_loop sim p target 0 1000 = Inl InvalidProbability"
      by (simp add: dtt_loop.simps [of sim p target 0 1000])
    then show ?thesis using h by (simp add: days_to_target_def)
  qed
  show "(\<exists>d. days_to_target sim p target = Inr (Some d) \<and> 1 \<le> d \<and> d \<le> 1000
              \<and> meets_target sim p target d
              \<and> (\<forall>d'. d' < d \<longrightarrow> \<not> meets_target sim p target d'))
        \<or> (days_to_target sim p target = Inr None
              \<and> (\<forall>d. d \<le> 1000 \<longrightarrow> \<not> meets_target sim p target d))"
    if h: "0 < target \<and> 0 < p \<and> p \<le> 1"
  proof -
    have p: "0 \<le> p" "p \<le> 1" using h by simp_all
    have "\<exists>l. dtt_loop sim p target 0 1000 = Inr l \<and> 0 \<le> l \<and> l \<le> 1000 \<and>
         (\<forall>d. d < l \<longrightarrow> \<not> meets_target sim p target d) \<and> (l = 1000 \<or> meets_target sim p target l)"
      using p by (intro dtt_loop_spec) (simp_all add: not_meets_nonpos)
    then obtain l where l: "dtt_loop sim p target 0 1000 = Inr l" "0 \<le> l" "l \<le> 1000"
      "\<forall>d. d < l \<longrightarrow> \<not> meets_target sim p target d" "l = 1000 \<or> meets_target sim p target l"
      by blast
    obtain xs where xs: "simulate_expected sim p l = Inr xs"
      using simulate_expected_ok [OF p l(2)] by blast
    show ?thesis
    proof (cases "meets_target sim p target l")
      case True
      then have "days_to_target sim p target = Inr (Some l)"
        using h l(1,3) xs by (simp add: days_to_target_def meets_target_def)
      moreover have "1 \<le> l" using True not_meets_nonpos [of l sim p target] by linarith
      ultimately show ?thesis using True l(3,4) by blast
    next
      case False
      then have r: "days_to_target sim p target = Inr None"
        using h l(1,3) xs by (auto simp: days_to_target_def meets_target_def)
      from False l(5) have l1000: "l = 1000" by blast
      have "\<not> meets_target sim p target d" if "d \<le> 1000" for d
        using meets_target_mono [OF p, of sim target d 1000] that False l1000 by blast
      with r show ?thesis by blast
    qed
  qed
qed

lemma mb_loop_multiple:
  "10 dvd left \<Longrightarrow> mb_loop sim days t ap left right = Inr l \<Longrightarrow> 10 dvd l"
proof (induction sim days t ap left right rule: mb_loop.induct)
  case (1 sim days t ap left right)
  show ?case
  proof (cases "left < right")
    case False
    with "1.prems" show ?thesis by (simp add: mb_loop.simps [of sim days t ap left right])
  next
    case True
    define mid where "mid = (left + right) div 2 div 10 * 10"
    have dm: "10 dvd mid + 10" by (simp add: mid_def)
    show ?thesis
    proof (cases "0 \<le> ap mid \<and> ap mid \<le> 1")
      case False
      with True "1.prems"(2) show ?thesis
        by (auto simp: mb_loop.simps [of sim days t ap left right] mid_def Let_def)
    next
      case pr: True
      show ?thesis
      proof (cases "simulate_expected sim (ap mid) days")
        case (Inl e)
        with True pr "1.prems"(2) show ?thesis
          by (auto simp: mb_loop.simps [of sim days t ap left right] mid_def Let_def)
      next
        case (Inr xs)
        show ?thesis
        proof (cases "xs = []")
          case e0: True
          have "mb_loop sim days t ap left right = mb_loop sim days t ap (mid + 10) right"
            using True pr Inr e0 by (auto simp: mb_loop.simps [of sim days t ap left right] mid_def Let_def)
          with "1.prems"(2) have r: "mb_loop sim days t ap (mid + 10) right = Inr l" by simp
          show ?thesis
            using True pr Inr e0 dm r
            by (intro "1.IH"(1) [unfolded mid_def [symmetric], OF True refl]) (auto simp: mid_def)
        next
          case ne: False
          show ?thesis
          proof (cases "of_int t \<le> last xs")
            case ok: True
            have "mb_loop sim days t ap left right = mb_loop sim days t ap left mid"
              using True pr Inr ne ok by (auto simp: mb_loop.simps [of sim days t ap left right] mid_def Let_def)
            with "1.prems"(2) have r: "mb_loop sim days t ap left mid = Inr l" by simp
            show ?thesis
              using True pr Inr ne ok "1.prems"(1) r
              by (intro "1.IH"(2) [unfolded mid_def [symmetric], OF True refl]) (auto simp: mid_def)
          next
            case no: False
            have "mb_loop sim days t ap left right = mb_loop sim days t ap (mid + 10) right"
              using True pr Inr ne no by (auto simp: mb_loop.simps [of sim days t ap left right] mid_def Let_def)
            with "1.prems"(2) have r: "mb_loop sim days t ap (mid + 10) right = Inr l" by simp
            show ?thesis
              using True pr Inr ne no dm r
              by (intro "1.IH"(3) [unfolded mid_def [symmetric], OF True refl]) (auto simp: mid_def)
          qed
        qed
      qed
    qed
  qed
qed

text \<open>
  Claim C5.  Whenever \<open>min_bonus_for_target\<close> returns a bonus, the argument was a callable,
  the bonus is a multiple of 10, is at most the maximum bonus, and the simulation run with
  the adoption probability of that bonus meets the target.  This holds for all arguments,
  in particular for those of the claim (positive days, target and tolerance, adoption
  probabilities in \<open>[0, 1]\<close>).
\<close>

theorem min_bonus_result:
  assumes "min_bonus_for_target opt draws days target adoption_prob eps = Inr (Some b)"
  shows "\<exists>ap. adoption_prob = Callable ap \<and> 10 dvd b \<and> b \<le> max_bonus opt
       \<and> meets_target (new_simulator draws) (ap b) target days"
proof (cases adoption_prob)
  case NonCallable
  with assms show ?thesis by (simp add: min_bonus_for_target_def split: if_splits)
next
  case (Callable ap)
  let ?sim = "new_simulator draws"
  have r: "min_bonus_for_target opt draws days target (Callable ap) eps = Inr (Some b)"
    using assms Callable by simp
  from r obtain l where l: "mb_loop ?sim days target ap 0 (max_bonus opt) = Inr l"
    by (auto simp: min_bonus_for_target_def split: if_splits sum.splits)
  from r l have lb: "l \<le> max_bonus opt"
    and rest: "(case simulate_expected ?sim (ap l) days of Inl e \<Rightarrow> Inl e
          | Inr fs \<Rightarrow> if fs \<noteq> [] \<and> of_int target \<le> last fs then Inr (Some l) else Inr None)
         = Inr (Some b)"
    by (auto simp: min_bonus_for_target_def split: if_splits sum.splits)
  from rest have b: "b = l" and m: "meets_target ?sim (ap l) target days"
    by (auto simp: meets_target_def split: sum.splits if_splits)
  have "10 dvd l" using mb_loop_multiple [OF _ l] by simp
  with b lb m Callable show ?thesis by simp
qed

text \<open>
  Claim C8, as the code has it.  \<open>min_bonus_for_target\<close> returns "impossible" whenever
  \<open>days \<le> 0\<close> or \<open>target_hires \<le> 0\<close>, whatever the tolerance and the adoption
  argument.  When days and target are positive, an argument that is not callable fails with
  the not-callable error, whatever the tolerance, and a callable with \<open>eps \<le> 0\<close> fails with
  \<open>InvalidTolerance\<close>.
\<close>

theorem min_bonus_guards:
  "(days \<le> 0 \<or> target \<le> 0 \<longrightarrow>
        min_bonus_for_target opt draws days target adoption_prob eps = Inr None)
   \<and> (0 < days \<and> 0 < target \<longrightarrow>
        min_bonus_for_target opt draws days target NonCallable eps = Inl NotCallable)
   \<and> (0 < days \<and> 0 < target \<and> eps \<le> 0 \<longrightarrow>
        min_bonus_for_target opt draws days target (Callable ap) eps = Inl InvalidTolerance)"
  by (simp add: min_bonus_for_target_def)

text \<open>
  The claim as stated asks for \<open>InvalidTolerance\<close> whenever \<open>eps \<le> 0\<close>.  With
  \<open>days = 0\<close> and \<open>eps = 0\<close> the code returns "impossible", and with positive days and
  target, \<open>eps = 0\<close> and an argument that is not callable it fails with the not-callable
  error.
\<close>

theorem min_bonus_guards_counterexample:
  "min_bonus_for_target new_optimizer (\<lambda>n. 0) 0 1 (Callable (\<lambda>b. 1)) 0 = Inr None
   \<and> min_bonus_for_target new_optimizer (\<lambda>n. 0) 3 5 NonCallable 0 = Inl NotCallable"
  by (simp add: min_bonus_for_target_def)

text \<open>The three guards at concrete arguments.\<close>

theorem min_bonus_guards_witness:
  "min_bonus_for_target new_optimizer (\<lambda>n. 0) 0 5 (Callable (\<lambda>b. 1)) 1 = Inr None
   \<and> min_bonus_for_target new_optimizer (\<lambda>n. 0) 10 100 NonCallable (1 / 100) = Inl NotCallable
   \<and> min_bonus_for_target new_optimizer (\<lambda>n. 0) 3 5 (Callable (\<lambda>b. 1)) 0 = Inl InvalidTolerance"
  using min_bonus_guards [where days = 0 and target = 5 and opt = new_optimizer
        and draws = "\<lambda>n. 0" and adoption_prob = "Callable (\<lambda>b. 1)" and eps = 1]
    min_bonus_guards [where days = 10 and target = 100 and opt = new_optimizer
        and draws = "\<lambda>n. 0" and eps = "1 / 100"]
    min_bonus_guards [where days = 3 and target = 5 and opt = new_optimizer
        and draws = "\<lambda>n. 0" and ap = "\<lambda>b. 1" and eps = 0]
  by simp

text \<open>
  Claim C9.  For \<open>p\<close> in \<open>[0, 1]\<close> and \<open>days \<ge> 0\<close>, and for every random generator,
  \<open>simulate_expected\<close> and \<open>simulate\<close> return one total per day and the totals never
  decrease; and the final value of \<open>simulate_expected\<close> does not decrease when the number
  of days grows.
\<close>

theorem cumulative_totals_monotone:
  assumes "0 \<le> p" "p \<le> 1" "0 \<le> days"
  shows "(\<exists>xs. simulate_expected sim p days = Inr xs \<and> length xs = nat days \<and> sorted xs)
       \<and> (\<exists>ys. fst (simulate sim p days) = Inr ys \<and> length ys = nat days \<and> sorted ys)
       \<and> (\<forall>d'. 1 \<le> days \<and> days \<le> d' \<longrightarrow>
             (\<exists>xs ys. simulate_expected sim p days = Inr xs \<and> simulate_expected sim p d' = Inr ys
                \<and> xs \<noteq> [] \<and> ys \<noteq> [] \<and> last xs \<le> last ys))"
proof (intro conjI allI impI)
  show "\<exists>xs. simulate_expected sim p days = Inr xs \<and> length xs = nat days \<and> sorted xs"
    using simulate_expected_sorted [OF assms, of sim] by metis
  show "\<exists>ys. fst (simulate sim p days) = Inr ys \<and> length ys = nat days \<and> sorted ys"
    using simulate_sorted [OF assms, of sim] by metis
  show "\<exists>xs ys. simulate_expected sim p days = Inr xs \<and> simulate_expected sim p d' = Inr ys
                \<and> xs \<noteq> [] \<and> ys \<noteq> [] \<and> last xs \<le> last ys"
    if "1 \<le> days \<and> days \<le> d'" for d'
    using simulate_expected_final_mono [OF assms(1,2), of days d' sim] that by metis
qed

subsection \<open>A population whose slots all hold the same count\<close>

text \<open>
  In \<open>simulate_expected\<close> every slot receives the same additions, so the dictionary is
  \<open>uniform n c\<close> (all \<open>n\<close> slots at count \<open>c\<close>) until all slots are removed on the same
  day.  \<open>part_done n k c c'\<close> is the dictionary in the middle of a day, when the first
  \<open>k\<close> slots have been updated.  \<open>iter_fadd n p d\<close> adds \<open>p\<close> to \<open>d\<close>, \<open>n\<close> times.
\<close>

definition uniform :: "nat \<Rightarrow> 'v \<Rightarrow> 'v slots" where
  "uniform n c = map (\<lambda>i. (i, c)) [0..<n]"

definition part_done :: "nat \<Rightarrow> nat \<Rightarrow> 'v \<Rightarrow> 'v \<Rightarrow> 'v slots" where
  "part_done n k c c' = map (\<lambda>i. (i, if i < k then c' else c)) [0..<n]"

lemma part_done_0 [simp]: "part_done n 0 c c' = uniform n c"
  by (simp add: part_done_def uniform_def)

lemma part_done_all [simp]: "part_done n n c c' = uniform n c'"
  by (simp add: part_done_def uniform_def)

lemma length_uniform [simp]: "length (uniform n c) = n"
  by (simp add: uniform_def)

lemma update_map_keys:
  "distinct xs \<Longrightarrow> AList.update k v (map (\<lambda>i. (i, f i)) xs) = map (\<lambda>i. (i, (f(k := v)) i)) xs"
  if "k \<in> set xs"
  using that
proof (induction xs)
  case Nil
  then show ?case by simp
next
  case (Cons a xs)
  show ?case
  proof (cases "a = k")
    case True
    then have "k \<notin> set xs" using Cons.prems by simp
    then have "map (\<lambda>i. (i, (f(k := v)) i)) xs = map (\<lambda>i. (i, f i)) xs" by (intro map_cong) auto
    with True show ?thesis by simp
  next
    case False
    with Cons show ?thesis by simp
  qed
qed

lemma map_of_part_done:
  "k < n \<Longrightarrow> map_of (part_done n k c c') k = Some c"
  by (simp add: part_done_def map_of_map_restrict)

lemma update_part_done:
  assumes "k < n" shows "AList.update k c' (part_done n k c c') = part_done n (Suc k) c c'"
proof -
  have "AList.update k c' (part_done n k c c')
      = map (\<lambda>i. (i, ((\<lambda>i. if i < k then c' else c)(k := c')) i)) [0..<n]"
    unfolding part_done_def using assms by (intro update_map_keys) simp_all
  also have "\<dots> = part_done n (Suc k) c c'"
    unfolding part_done_def by (intro map_cong refl) (auto simp: less_Suc_eq)
  finally show ?thesis .
qed

lemma deactivate_all:
  "fst ` set al \<subseteq> set ks \<Longrightarrow> deactivate ks al = []"
proof (induction ks arbitrary: al)
  case Nil
  then show ?case by simp
next
  case (Cons k ks)
  show ?case
  proof (cases "map_of al k")
    case None
    then have "k \<notin> fst ` set al" by (simp add: map_of_eq_None_iff)
    with Cons.prems have "fst ` set al \<subseteq> set ks" by auto
    from Cons.IH [OF this] None show ?thesis by simp
  next
    case (Some v)
    have "set (map fst (AList.delete k al)) \<subseteq> set ks"
      unfolding delete_keys using Cons.prems by auto
    then have "fst ` set (AList.delete k al) \<subseteq> set ks" by simp
    from Cons.IH [OF this] Some show ?thesis by simp
  qed
qed

lemma deactivate_uniform [simp]: "deactivate [0..<n] (uniform n c) = []"
  by (rule deactivate_all) (auto simp: uniform_def)

fun iter_fadd :: "nat \<Rightarrow> real \<Rightarrow> real \<Rightarrow> real" where
  "iter_fadd 0 p d = d"
| "iter_fadd (Suc n) p d = iter_fadd n p (fadd d p)"

lemma se_referrers_uniform_active:
  assumes "\<not> of_int cap \<le> c" "k \<le> n"
  shows "se_referrers cap p [k..<n] (part_done n k c (fadd c p), daily, deact)
       = (uniform n (fadd c p), iter_fadd (n - k) p daily,
          deact @ (if of_int cap \<le> fadd c p then [k..<n] else []))"
  using assms(2)
proof (induction "n - k" arbitrary: k daily deact)
  case 0
  then show ?case by simp
next
  case (Suc m)
  then have kn: "k < n" and m: "m = n - Suc k" and sk: "Suc k \<le> n" by simp_all
  have u: "[k..<n] = k # [Suc k..<n]" using kn by (rule upt_conv_Cons)
  have nk: "n - k = Suc (n - Suc k)" using kn by simp
  show ?case
    unfolding u
    using assms(1) Suc.hyps(1) [OF m sk] kn
    by (simp add: map_of_part_done update_part_done nk)
qed

lemma se_referrers_uniform_full:
  assumes "of_int cap \<le> c" "k \<le> n"
  shows "se_referrers cap p [k..<n] (uniform n c, daily, deact) = (uniform n c, daily, deact @ [k..<n])"
  using assms(2)
proof (induction "n - k" arbitrary: k deact)
  case 0
  then show ?case by simp
next
  case (Suc m)
  then have kn: "k < n" and m: "m = n - Suc k" and sk: "Suc k \<le> n" by simp_all
  have u: "[k..<n] = k # [Suc k..<n]" using kn by (rule upt_conv_Cons)
  have l: "map_of (uniform n c) k = Some c"
    using kn by (simp add: uniform_def map_of_map_restrict)
  show ?case
    unfolding u
    using assms(1) Suc.hyps(1) [OF m sk] kn l
    by simp
qed

lemma se_days_uniform_active:
  assumes "\<not> of_int cap \<le> c"
  shows "se_days cap p (Suc n) (uniform N c, N, t, acc)
       = se_days cap p n
           (if of_int cap \<le> fadd c p then [] else uniform N (fadd c p),
            if of_int cap \<le> fadd c p then 0 else N,
            fadd t (iter_fadd N p 0), acc @ [fadd t (iter_fadd N p 0)])"
proof -
  have "se_referrers cap p [0..<N] (uniform N c, 0, [])
      = (uniform N (fadd c p), iter_fadd N p 0, if of_int cap \<le> fadd c p then [0..<N] else [])"
    using se_referrers_uniform_active [OF assms, of 0 N p 0 "[]"] by simp
  then show ?thesis by simp
qed

lemma se_days_uniform_full:
  assumes "of_int cap \<le> c"
  shows "se_days cap p (Suc n) (uniform N c, N, t, acc)
       = se_days cap p n ([], 0, fadd t 0, acc @ [fadd t 0])"
proof -
  have "se_referrers cap p [0..<N] (uniform N c, 0, []) = (uniform N c, 0, [0..<N])"
    using se_referrers_uniform_full [OF assms, of 0 N p 0 "[]"] by simp
  then show ?thesis by simp
qed

lemma se_days_empty:
  "se_days cap p (Suc n) ([], 0, t, acc) = se_days cap p n ([], 0, fadd t 0, acc @ [fadd t 0])"
  by simp

text \<open>Multiples of a power of two add without rounding.\<close>

lemma fadd_grid:
  assumes "- 1074 \<le> j" "0 \<le> a" "0 \<le> b" "a + b < 2 ^ 53"
  shows "fadd (of_int a * 2 powr of_int j) (of_int b * 2 powr of_int j) = of_int (a + b) * 2 powr of_int j"
proof -
  have "(of_int a :: real) * 2 powr of_int j + of_int b * 2 powr of_int j = of_int (a + b) * 2 powr of_int j"
    by (simp add: algebra_simps)
  moreover have "rd (of_int (a + b) * 2 powr of_int j) = of_int (a + b) * 2 powr of_int j"
    using assms by (intro rd_exact) simp_all
  ultimately show ?thesis by (simp only: fadd_def)
qed

lemma iter_fadd_grid:
  assumes "- 1074 \<le> j"
  shows "0 \<le> a \<Longrightarrow> a + int n < 2 ^ 53 \<Longrightarrow>
     iter_fadd n (2 powr of_int j) (of_int a * 2 powr of_int j) = of_int (a + int n) * 2 powr of_int j"
proof (induction n arbitrary: a)
  case 0
  then show ?case by simp
next
  case (Suc n)
  have "fadd (of_int a * 2 powr of_int j) (of_int 1 * 2 powr of_int j) = of_int (a + 1) * 2 powr of_int j"
    using assms Suc.prems by (intro fadd_grid) simp_all
  then have f: "fadd (of_int a * 2 powr of_int j) (2 powr of_int j) = of_int (a + 1) * 2 powr of_int j"
    by simp
  have "iter_fadd n (2 powr of_int j) (of_int (a + 1) * 2 powr of_int j)
      = of_int (a + 1 + int n) * 2 powr of_int j"
    using Suc.prems by (intro Suc.IH) simp_all
  then show ?case by (simp add: f add.assoc)
qed

lemma se_days_grid:
  fixes p :: real
  assumes j: "- 1074 \<le> j" and p: "p = 2 powr of_int j"
  shows "0 \<le> a \<Longrightarrow> 0 \<le> b \<Longrightarrow> of_int (a + int n) * p < of_int cap \<Longrightarrow>
     a + int n < 2 ^ 53 \<Longrightarrow> b + int n * int N < 2 ^ 53 \<Longrightarrow>
     se_days cap p n (uniform N (of_int a * p), N, of_int b * p, acc)
       = acc @ map (\<lambda>i. of_int (b + int i * int N) * p) [1..<Suc n]"
proof (induction n arbitrary: a b acc)
  case 0
  then show ?case by simp
next
  case (Suc n)
  have pp: "0 < p" by (simp add: p)
  have lt: "of_int a * p < of_int cap" and lt1: "of_int (a + 1) * p < of_int cap"
  proof -
    have "(of_int a :: real) \<le> of_int (a + int (Suc n))" "(of_int (a + 1) :: real) \<le> of_int (a + int (Suc n))"
      by simp_all
    then have "of_int a * p \<le> of_int (a + int (Suc n)) * p" "of_int (a + 1) * p \<le> of_int (a + int (Suc n)) * p"
      using pp by (simp_all only: mult_le_cancel_right_pos)
    with Suc.prems(3) show "of_int a * p < of_int cap" "of_int (a + 1) * p < of_int cap" by linarith+
  qed
  have c': "fadd (of_int a * p) p = of_int (a + 1) * p"
    using fadd_grid [OF j, of a 1] Suc.prems unfolding p by simp
  have nb: "0 \<le> int N" by simp
  have NN: "int N \<le> int (Suc n) * int N"
    using mult_right_mono [of 1 "int (Suc n)" "int N"] by simp
  have Nb: "0 + int N < 2 ^ 53" using NN Suc.prems(2,5) by linarith
  have daily: "iter_fadd N p 0 = of_int (int N) * p"
    using iter_fadd_grid [OF j, of 0 N] Nb unfolding p by simp
  have "b + int N \<le> b + int (Suc n) * int N" using NN by simp
  then have tb: "b + int N < 2 ^ 53" using Suc.prems(5) by linarith
  have t': "fadd (of_int b * p) (of_int (int N) * p) = of_int (b + int N) * p"
    using fadd_grid [OF j, of b "int N"] Suc.prems(2) tb unfolding p by simp
  have step: "se_days cap p (Suc n) (uniform N (of_int a * p), N, of_int b * p, acc)
      = se_days cap p n (uniform N (of_int (a + 1) * p), N, of_int (b + int N) * p,
          acc @ [of_int (b + int N) * p])"
    using lt lt1 by (simp only: se_days_uniform_active [of cap "of_int a * p", OF _] c' daily t' not_le if_False)
      (simp add: not_le)
  have ih: "se_days cap p n (uniform N (of_int (a + 1) * p), N, of_int (b + int N) * p,
          acc @ [of_int (b + int N) * p])
      = (acc @ [of_int (b + int N) * p]) @ map (\<lambda>i. of_int (b + int N + int i * int N) * p) [1..<Suc n]"
    using Suc.prems by (intro Suc.IH) (simp_all add: algebra_simps)
  have sh: "map (\<lambda>i. of_int (b + int i * int N) * p) [1..<Suc (Suc n)]
      = (of_int (b + int N) * p) # map (\<lambda>i. of_int (b + int N + int i * int N) * p) [1..<Suc n]"
  proof -
    have "[1..<Suc (Suc n)] = 1 # map Suc [1..<Suc n]"
      by (metis One_nat_def map_Suc_upt upt_conv_Cons zero_less_Suc Suc_less_eq)
    then show ?thesis by (simp add: comp_def algebra_simps)
  qed
  show ?case unfolding step ih sh by simp
qed

lemma simulate_expected_grid:
  fixes p :: real
  assumes j: "- 1074 \<le> j" "j \<le> 0" and p: "p = 2 powr of_int j"
    and d: "1 \<le> d" "of_int d * p < of_int (max_referrals_per_referrer sim)"
      "d * int (initial_active_referrers sim) < 2 ^ 53" "d < 2 ^ 53"
  shows "simulate_expected sim p d
       = Inr (map (\<lambda>i. of_int (int i * int (initial_active_referrers sim)) * p) [1..<Suc (nat d)])"
proof -
  let ?N = "initial_active_referrers sim" and ?cap = "max_referrals_per_referrer sim"
  have p0: "0 \<le> p" by (simp add: p)
  have "(2::real) powr of_int j \<le> 2 powr 0" using j(2) by (intro powr_mono) simp_all
  then have p1: "p \<le> 1" by (simp add: p)
  have e: "simulate_expected sim p d = Inr (se_days ?cap p (nat d)
                  (map (\<lambda>i. (i, 0)) [0..<?N], ?N, 0, []))"
    using p0 p1 d(1) by (intro simulate_expected_ok) simp_all
  have u: "map (\<lambda>i. (i, 0::real)) [0..<?N] = uniform ?N (of_int 0 * p)" by (simp add: uniform_def)
  have "se_days ?cap p (nat d) (uniform ?N (of_int 0 * p), ?N, of_int 0 * p, [])
      = [] @ map (\<lambda>i. of_int (0 + int i * int ?N) * p) [1..<Suc (nat d)]"
    using d by (intro se_days_grid [OF j(1) p]) simp_all
  then have "se_days ?cap p (nat d) (map (\<lambda>i. (i, 0)) [0..<?N], ?N, 0, [])
      = map (\<lambda>i. of_int (int i * int ?N) * p) [1..<Suc (nat d)]"
    unfolding u by simp
  with e show ?thesis by simp
qed

lemma meets_target_grid:
  fixes p :: real
  assumes j: "- 1074 \<le> j" "j \<le> 0" and p: "p = 2 powr of_int j"
    and d: "1 \<le> d" "of_int d * p < of_int (max_referrals_per_referrer sim)"
      "d * int (initial_active_referrers sim) < 2 ^ 53" "d < 2 ^ 53"
  shows "meets_target sim p t d \<longleftrightarrow> of_int t \<le> of_int (d * int (initial_active_referrers sim)) * p"
proof -
  let ?f = "\<lambda>i. of_int (int i * int (initial_active_referrers sim)) * p"
  have n: "[1..<Suc (nat d)] = [1..<nat d] @ [nat d]" using d(1) by (simp add: upt_Suc_append)
  have "last (map ?f [1..<Suc (nat d)]) = ?f (nat d)" unfolding n by simp
  moreover have "map ?f [1..<Suc (nat d)] \<noteq> []" unfolding n by simp
  ultimately show ?thesis
    using d(1) unfolding meets_target_def simulate_expected_grid [OF assms] by simp
qed

text \<open>The simulator as its constructor builds it, with some sequence of draws.\<close>

definition sim0 :: simulator where
  "sim0 = new_simulator (\<lambda>n. 0)"

lemma sim0_fields [simp]:
  "initial_active_referrers sim0 = 100" "max_referrals_per_referrer sim0 = 10"
  by (simp_all add: sim0_def new_simulator_def)

lemma tiny_p: "(1 / 2 ^ 20 :: real) = 2 powr of_int (- 20)"
  by (simp add: powr_minus_divide powr_numeral [symmetric] del: powr_numeral)

lemma one_p: "(1 :: real) = 2 powr of_int 0"
  by simp

lemma meets_one_1: "meets_target sim0 1 100 1"
  using meets_target_grid [of 0 1 1 sim0 100] by simp

lemma meets_tiny_1000: "\<not> meets_target sim0 (1 / 2 ^ 20) 1 1000"
  using meets_target_grid [of "- 20" "1 / 2 ^ 20" 1000 sim0 1, OF _ _ tiny_p] by simp

lemma meets_tiny_10486: "meets_target sim0 (1 / 2 ^ 20) 1 10486"
  using meets_target_grid [of "- 20" "1 / 2 ^ 20" 10486 sim0 1, OF _ _ tiny_p] by simp

subsection \<open>Concrete runs\<close>

lemma se_one_1: "simulate_expected sim0 1 1 = Inr [100]"
  using simulate_expected_grid [of 0 1 1 sim0] by simp

lemma se_tiny_1: "simulate_expected sim0 (1 / 2 ^ 20) 1 = Inr [100 / 2 ^ 20]"
  using simulate_expected_grid [of "- 20" "1 / 2 ^ 20" 1 sim0, OF _ _ tiny_p] by simp

lemma se_half_3: "simulate_expected sim0 (1 / 2) 3 = Inr [50, 100, 150]"
proof -
  have h: "(1 / 2 :: real) = 2 powr of_int (- 1)" by (simp add: powr_minus_divide)
  have "[1..<Suc (nat 3)] = [1, 2, 3]" by (simp add: upt_rec)
  then show ?thesis
    using simulate_expected_grid [of "- 1" "1 / 2" 3 sim0, OF _ _ h] by simp
qed

text \<open>
  Claim C4, as the code has it.  A target of at most 0 gives 0 days; a positive target with
  \<open>p \<le> 0\<close> gives "impossible"; a positive target with \<open>p > 1\<close> fails with
  \<open>InvalidProbability\<close>; and for \<open>0 < p \<le> 1\<close> the result is the least number of days
  \<open>d\<close> with \<open>1 \<le> d \<le> 1000\<close> whose simulated final value meets the target, or
  "impossible" when no number of days up to 1000 meets it.
\<close>

theorem days_to_target_spec:
  "(target \<le> 0 \<longrightarrow> days_to_target sim p target = Inr (Some 0))
   \<and> (0 < target \<and> p \<le> 0 \<longrightarrow> days_to_target sim p target = Inr None)
   \<and> (0 < target \<and> 1 < p \<longrightarrow> days_to_target sim p target = Inl InvalidProbability)
   \<and> (0 < target \<and> 0 < p \<and> p \<le> 1 \<longrightarrow>
        (\<exists>d. days_to_target sim p target = Inr (Some d) \<and> 1 \<le> d \<and> d \<le> 1000
              \<and> meets_target sim p target d
              \<and> (\<forall>d'. d' < d \<longrightarrow> \<not> meets_target sim p target d'))
        \<or> (days_to_target sim p target = Inr None
              \<and> (\<forall>d. d \<le> 1000 \<longrightarrow> \<not> meets_target sim p target d)))"
  by (rule days_to_target_cases)

text \<open>
  The claim as stated fails twice.  With \<open>p = 2\<close> the function raises instead of returning
  a number of days or "impossible".  With \<open>p = 2^-20\<close> and target 1 the function returns
  "impossible" although 10486 days meet the target: the search stops at 1000 days.  (All
  sums in this run are multiples of \<open>2^-20\<close> below \<open>2^53\<close>, so no addition rounds.)
\<close>

theorem days_to_target_spec_counterexample:
  "days_to_target sim0 2 1 = Inl InvalidProbability
   \<and> days_to_target sim0 (1 / 2 ^ 20) 1 = Inr None
   \<and> meets_target sim0 (1 / 2 ^ 20) 1 10486"
proof (intro conjI)
  show "days_to_target sim0 2 1 = Inl InvalidProbability"
    using days_to_target_cases [of 1 sim0 2] by simp
  show "meets_target sim0 (1 / 2 ^ 20) 1 10486" by (rule meets_tiny_10486)
  have p: "(0::real) \<le> 1 / 2 ^ 20" "(1 / 2 ^ 20 :: real) \<le> 1" by simp_all
  have "\<not> meets_target sim0 (1 / 2 ^ 20) 1 d" if "d \<le> 1000" for d
    using meets_target_mono [OF p, of sim0 1 d 1000] that meets_tiny_1000 by blast
  then show "days_to_target sim0 (1 / 2 ^ 20) 1 = Inr None"
    using days_to_target_cases [of 1 sim0 "1 / 2 ^ 20"] by auto
qed

text \<open>With \<open>p = 1\<close> the first day brings 100 referrals, so a target of 100 needs one day.\<close>

theorem days_to_target_spec_witness:
  "(0::int) < 100 \<and> (0::real) < 1 \<and> (1::real) \<le> 1
   \<and> days_to_target sim0 1 100 = Inr (Some 1) \<and> meets_target sim0 1 100 1"
proof -
  from days_to_target_spec [of 100 sim0 1]
  have "(\<exists>d. days_to_target sim0 1 100 = Inr (Some d) \<and> 1 \<le> d \<and> d \<le> 1000
              \<and> meets_target sim0 1 100 d
              \<and> (\<forall>d'. d' < d \<longrightarrow> \<not> meets_target sim0 1 100 d'))
        \<or> (days_to_target sim0 1 100 = Inr None
              \<and> (\<forall>d. d \<le> 1000 \<longrightarrow> \<not> meets_target sim0 1 100 d))"
    by simp
  then show ?thesis
  proof
    assume "\<exists>d. days_to_target sim0 1 100 = Inr (Some d) \<and> 1 \<le> d \<and> d \<le> 1000
              \<and> meets_target sim0 1 100 d
              \<and> (\<forall>d'. d' < d \<longrightarrow> \<not> meets_target sim0 1 100 d')"
    then obtain d where d: "days_to_target sim0 1 100 = Inr (Some d)" "1 \<le> d"
      "\<forall>d'. d' < d \<longrightarrow> \<not> meets_target sim0 1 100 d'" by blast
    from d(3) meets_one_1 have "\<not> 1 < d" by blast
    with d(2) have "d = 1" by simp
    with d(1) meets_one_1 show ?thesis by simp
  next
    assume "days_to_target sim0 1 100 = Inr None
              \<and> (\<forall>d. d \<le> 1000 \<longrightarrow> \<not> meets_target sim0 1 100 d)"
    then have "\<not> meets_target sim0 1 100 1" by simp
    with meets_one_1 show ?thesis by simp
  qed
qed

text \<open>
  A run of \<open>min_bonus_for_target\<close> with an adoption function that jumps from \<open>2^-20\<close> to
  1 at a bonus of 50.
\<close>

lemma se_tiny_1n: "simulate_expected sim0 (1 / 1048576) 1 = Inr [100 / 1048576]"
  using se_tiny_1 by simp

lemma min_bonus_example:
  "min_bonus_for_target new_optimizer (\<lambda>n. 0) 1 100
       (Callable (\<lambda>b. if 50 \<le> b then 1 else 1 / 2 ^ 20)) (1 / 100)
     = Inr (Some 50)"
  by (simp add: min_bonus_for_target_def new_optimizer_def sim0_def [symmetric] se_one_1 se_tiny_1n
      mb_loop.simps)

text \<open>The run above returns 50 and the simulation at that bonus meets the target.\<close>

theorem min_bonus_result_witness:
  "min_bonus_for_target new_optimizer (\<lambda>n. 0) 1 100
       (Callable (\<lambda>b. if 50 \<le> b then 1 else 1 / 2 ^ 20)) (1 / 100)
     = Inr (Some 50)
   \<and> (10::int) dvd 50
   \<and> meets_target (new_simulator (\<lambda>n. 0)) 1 100 1"
  using min_bonus_result [OF min_bonus_example] min_bonus_example by simp

text \<open>Three days at probability one half: 50, 100 and 150 expected referrals.\<close>

theorem cumulative_totals_monotone_witness:
  "(0::real) \<le> 1 / 2 \<and> (1 / 2 :: real) \<le> 1 \<and> (0::int) \<le> 3
   \<and> simulate_expected sim0 (1 / 2) 3 = Inr [50, 100, 150]
   \<and> sorted [50, 100, 150 :: real]"
  using cumulative_totals_monotone [where p = "1 / 2" and days = 3 and sim = sim0] se_half_3
  by simp

subsection \<open>Probability one: the stochastic and the expected run agree\<close>

text \<open>
  With \<open>p = 1\<close> every trial succeeds, whatever value below 1 the generator returns, so the
  stochastic run is uniform too, and the float sums of the expected run are sums of integers
  below \<open>2^53\<close>, which do not round.
\<close>

lemma sim_referrers_uniform_active:
  assumes "\<not> cap \<le> c" "\<forall>i. g i < p" "k \<le> n"
  shows "sim_referrers g cap p (map (\<lambda>i. (i, c)) [k..<n]) (part_done n k c (c + 1), pos, daily, deact)
       = (uniform n (c + 1), pos + (n - k), daily + int (n - k),
          deact @ (if cap \<le> c + 1 then [k..<n] else []))"
  using assms(3)
proof (induction "n - k" arbitrary: k pos daily deact)
  case 0
  then show ?case by simp
next
  case (Suc m)
  then have kn: "k < n" and m: "m = n - Suc k" and sk: "Suc k \<le> n" by simp_all
  have u: "[k..<n] = k # [Suc k..<n]" using kn by (rule upt_conv_Cons)
  have nk: "n - k = Suc (n - Suc k)" using kn by simp
  show ?case
    unfolding u
    using assms(1,2) Suc.hyps(1) [OF m sk] kn
    by (simp add: update_part_done nk)
qed

lemma sim_referrers_uniform_full:
  assumes "cap \<le> c" "k \<le> n"
  shows "sim_referrers g cap p (map (\<lambda>i. (i, c)) [k..<n]) (uniform n c, pos, daily, deact)
       = (uniform n c, pos, daily, deact @ [k..<n])"
  using assms(2)
proof (induction "n - k" arbitrary: k deact)
  case 0
  then show ?case by simp
next
  case (Suc m)
  then have kn: "k < n" and m: "m = n - Suc k" and sk: "Suc k \<le> n" by simp_all
  have u: "[k..<n] = k # [Suc k..<n]" using kn by (rule upt_conv_Cons)
  show ?case
    unfolding u
    using assms(1) Suc.hyps(1) [OF m sk] kn
    by simp
qed

lemma sim_days_uniform_active:
  assumes "\<not> cap \<le> c" "\<forall>i. g i < p"
  shows "sim_days g cap p (Suc n) (uniform N c, pos, t, acc)
       = sim_days g cap p n
           (if cap \<le> c + 1 then [] else uniform N (c + 1), pos + N, t + int N, acc @ [t + int N])"
proof -
  have "sim_referrers g cap p (map (\<lambda>i. (i, c)) [0..<N]) (part_done N 0 c (c + 1), pos, 0, [])
      = (uniform N (c + 1), pos + (N - 0), 0 + int (N - 0), [] @ (if cap \<le> c + 1 then [0..<N] else []))"
    using assms by (intro sim_referrers_uniform_active) simp_all
  then have "sim_referrers g cap p (uniform N c) (uniform N c, pos, 0, [])
      = (uniform N (c + 1), pos + N, int N, if cap \<le> c + 1 then [0..<N] else [])"
    by (simp add: uniform_def [of N c])
  then show ?thesis by simp
qed

lemma sim_days_uniform_full:
  assumes "cap \<le> c"
  shows "sim_days g cap p (Suc n) (uniform N c, pos, t, acc)
       = sim_days g cap p n ([], pos, t, acc @ [t])"
proof -
  have "sim_referrers g cap p (map (\<lambda>i. (i, c)) [0..<N]) (uniform N c, pos, 0, [])
      = (uniform N c, pos, 0, [] @ [0..<N])"
    using assms by (intro sim_referrers_uniform_full) simp_all
  then have "sim_referrers g cap p (uniform N c) (uniform N c, pos, 0, []) = (uniform N c, pos, 0, [0..<N])"
    by (simp add: uniform_def [of N c])
  then show ?thesis by simp
qed

lemma fadd_int:
  assumes "0 \<le> a" "0 \<le> b" "a + b < 2 ^ 53"
  shows "fadd (of_int a) (of_int b) = of_int (a + b)"
  using fadd_grid [of 0 a b] assms by simp

lemma iter_fadd_int:
  assumes "int n < 2 ^ 53" shows "iter_fadd n 1 0 = of_int (int n)"
  using iter_fadd_grid [of 0 0 n] assms by simp

lemma days_empty_agree:
  "0 \<le> t \<Longrightarrow> t < 2 ^ 53 \<Longrightarrow>
     se_days cap p n ([], 0, of_int t, map of_int acc)
       = map of_int (fst (sim_days g cap' p' n ([], pos, t, acc)))"
proof (induction n arbitrary: acc)
  case 0
  then show ?case by simp
next
  case (Suc n)
  have f: "fadd (of_int t) 0 = of_int t" using fadd_int [of t 0] Suc.prems by simp
  have "se_days cap p (Suc n) ([], 0, of_int t, map of_int acc)
      = se_days cap p n ([], 0, of_int t, map of_int (acc @ [t]))"
    by (simp add: f)
  also have "\<dots> = map of_int (fst (sim_days g cap' p' n ([], pos, t, acc @ [t])))"
    using Suc.prems by (rule Suc.IH)
  finally show ?case by simp
qed

lemma days_uniform_agree:
  assumes g: "\<forall>i. g i < 1" and cb: "cap < 2 ^ 53"
  shows "0 \<le> c \<Longrightarrow> 0 \<le> t \<Longrightarrow> t + int N * max 0 (cap - c) < 2 ^ 53 \<Longrightarrow>
     se_days cap 1 n (uniform N (of_int c), N, of_int t, map of_int acc)
       = map of_int (fst (sim_days g cap 1 n (uniform N c, pos, t, acc)))"
proof (induction n arbitrary: c t acc pos)
  case 0
  then show ?case by simp
next
  case (Suc n)
  have t53: "t < 2 ^ 53"
  proof -
    have "0 \<le> int N * max 0 (cap - c)" by simp
    with Suc.prems(3) show ?thesis by linarith
  qed
  show ?case
  proof (cases "cap \<le> c")
    case True
    then have ft: "(of_int cap :: real) \<le> of_int c" by simp
    have f: "fadd (of_int t) 0 = of_int t" using fadd_int [of t 0] Suc.prems(2) t53 by simp
    have "se_days cap 1 (Suc n) (uniform N (of_int c), N, of_int t, map of_int acc)
        = se_days cap 1 n ([], 0, of_int t, map of_int (acc @ [t]))"
      by (simp only: se_days_uniform_full [OF ft] f) simp
    also have "\<dots> = map of_int (fst (sim_days g cap 1 n ([], pos, t, acc @ [t])))"
      using Suc.prems(2) t53 by (rule days_empty_agree)
    also have "sim_days g cap 1 n ([], pos, t, acc @ [t]) = sim_days g cap 1 (Suc n) (uniform N c, pos, t, acc)"
      by (simp only: sim_days_uniform_full [OF True])
    finally show ?thesis .
  next
    case False
    then have lt: "c < cap" by simp
    then have nft: "\<not> (of_int cap :: real) \<le> of_int c" by simp
    have m: "max 0 (cap - c) = cap - c" "max 0 (cap - (c + 1)) = cap - (c + 1)" using lt by simp_all
    have b: "t + int N * (cap - c) < 2 ^ 53" using Suc.prems(3) m by simp
    have "int N * 1 \<le> int N * (cap - c)" using lt by (intro mult_left_mono) simp_all
    then have Nle: "int N \<le> int N * (cap - c)" by simp
    have N53: "int N < 2 ^ 53" using Nle b Suc.prems(2) by linarith
    have tN: "t + int N < 2 ^ 53" using Nle b by linarith
    have c1: "fadd (of_int c) 1 = of_int (c + 1)"
      using fadd_int [of c 1] Suc.prems(1) lt cb by simp
    have dl: "iter_fadd N 1 0 = of_int (int N)" using N53 by (rule iter_fadd_int)
    have t1: "fadd (of_int t) (of_int (int N)) = of_int (t + int N)"
      using Suc.prems(2) tN by (intro fadd_int) simp_all
    have cmp: "((of_int cap :: real) \<le> of_int (c + 1)) = (cap \<le> c + 1)" by (rule of_int_le_iff)
    have se: "se_days cap 1 (Suc n) (uniform N (of_int c), N, of_int t, map of_int acc)
        = se_days cap 1 n
           (if cap \<le> c + 1 then [] else uniform N (of_int (c + 1)),
            if cap \<le> c + 1 then 0 else N,
            of_int (t + int N), map of_int (acc @ [t + int N]))"
      by (simp only: se_days_uniform_active [OF nft] c1 dl t1 cmp) simp
    have si: "sim_days g cap 1 (Suc n) (uniform N c, pos, t, acc)
        = sim_days g cap 1 n
           (if cap \<le> c + 1 then [] else uniform N (c + 1), pos + N, t + int N, acc @ [t + int N])"
      using False g by (rule sim_days_uniform_active)
    show ?thesis
    proof (cases "cap \<le> c + 1")
      case True
      have "se_days cap 1 n ([], 0, of_int (t + int N), map of_int (acc @ [t + int N]))
          = map of_int (fst (sim_days g cap 1 n ([], pos + N, t + int N, acc @ [t + int N])))"
        using Suc.prems(2) tN by (intro days_empty_agree) simp_all
      then show ?thesis unfolding se si using True by simp
    next
      case nf: False
      have "int N * (cap - (c + 1)) = int N * (cap - c) - int N" by (simp add: algebra_simps)
      then have "t + int N + int N * (cap - (c + 1)) < 2 ^ 53" using b by linarith
      then have "t + int N + int N * max 0 (cap - (c + 1)) < 2 ^ 53" by (simp only: m)
      then have "se_days cap 1 n (uniform N (of_int (c + 1)), N, of_int (t + int N), map of_int (acc @ [t + int N]))
          = map of_int (fst (sim_days g cap 1 n (uniform N (c + 1), pos + N, t + int N, acc @ [t + int N])))"
        using Suc.prems(1,2) by (intro Suc.IH) simp_all
      then show ?thesis unfolding se si using nf by simp
    qed
  qed
qed

text \<open>
  Claim C10.  For \<open>p = 1\<close>, every \<open>days \<ge> 0\<close> and every generator whose values lie in
  \<open>[0, 1)\<close>, the sequence \<open>simulate\<close> returns is, number by number, the sequence
  \<open>simulate_expected\<close> returns.  The population constants only have to keep the totals
  below \<open>2^53\<close>, as the constructor's 100 slots of capacity 10 do.
\<close>

theorem simulate_matches_expected:
  assumes "\<forall>i. 0 \<le> random_generator sim i \<and> random_generator sim i < 1"
    and "int (initial_active_referrers sim) * max 0 (max_referrals_per_referrer sim) < 2 ^ 53"
    and "max_referrals_per_referrer sim < 2 ^ 53"
    and "0 \<le> days"
  shows "\<exists>ys. fst (simulate sim 1 days) = Inr ys \<and> simulate_expected sim 1 days = Inr (map of_int ys)"
proof (cases "days = 0")
  case True
  then show ?thesis by (simp add: simulate_def simulate_expected_def)
next
  case False
  let ?N = "initial_active_referrers sim" and ?cap = "max_referrals_per_referrer sim"
  let ?g = "random_generator sim"
  let ?r = "sim_days ?g ?cap 1 (nat days) (uniform ?N 0, random_pos sim, 0, [])"
  have g: "\<forall>i. ?g i < 1" using assms(1) by simp
  have s: "fst (simulate sim 1 days) = Inr (fst ?r)"
    using assms(4) False by (simp add: simulate_def uniform_def split: prod.splits)
  have e: "simulate_expected sim 1 days = Inr (se_days ?cap 1 (nat days) (uniform ?N (of_int 0), ?N, of_int 0, map of_int []))"
    using assms(4) False by (simp add: simulate_expected_def uniform_def)
  have "se_days ?cap 1 (nat days) (uniform ?N (of_int 0), ?N, of_int 0, map of_int [])
      = map of_int (fst ?r)"
    using g assms(3) by (rule days_uniform_agree) (use assms(2) in simp_all)
  with s e show ?thesis by simp
qed

text \<open>Two days with the constructor's constants: both runs give 100 and 200.\<close>

theorem simulate_matches_expected_witness:
  "fst (simulate sim0 1 2) = Inr [100, 200]
   \<and> simulate_expected sim0 1 2 = Inr (map of_int [100, 200])"
proof -
  have e: "simulate_expected sim0 1 2 = Inr [100, 200]"
  proof -
    have "[1..<Suc (nat 2)] = [1, 2]" by (simp add: upt_rec)
    then show ?thesis using simulate_expected_grid [of 0 1 2 sim0] by simp
  qed
  have "\<forall>i. 0 \<le> random_generator sim0 i \<and> random_generator sim0 i < 1"
    by (simp add: sim0_def new_simulator_def)
  then have "\<exists>ys. fst (simulate sim0 1 2) = Inr ys \<and> simulate_expected sim0 1 2 = Inr (map of_int ys)"
    by (rule simulate_matches_expected) simp_all
  then obtain ys where ys: "fst (simulate sim0 1 2) = Inr ys" "map of_int ys = [100, 200 :: real]"
    using e by auto
  from ys(2) obtain a b where ab: "ys = [a, b]" "of_int a = (100::real)" "of_int b = (200::real)"
    by (auto simp: map_eq_Cons_conv)
  from ab(2) have "a = 100" by linarith
  moreover from ab(3) have "b = 200" by linarith
  ultimately show ?thesis using ys(1) ab(1) e by simp
qed

end
